theory Spec2Isabelle
  imports Main "HOL-Library.Word"
begin

section \<open>Data model of catalog/PartitionSchemeHeader.hpp\<close>

text \<open>
  Modelled from the spec: the typedefs \<open>attribute_id\<close> and \<open>partition_id\<close> of
  catalog/CatalogTypedefs.hpp, which is not among the sources. Attribute ids are "opaque
  small integers"; a partition id is "a non-negative integer", here an unsigned machine
  integer of the width of \<open>std::size_t\<close> (\<open>getPartitionId\<close> assigns
  \<open>partition_range_boundaries_.size() - 1\<close> to one), taken as 64 bits.
\<close>

type_synonym attribute_id = int
type_synonym size_t = "64 word"
type_synonym partition_id = "64 word"

text \<open>
  \<open>TypedValue\<close> and \<open>Type\<close> (types/) are external: they are the type parameters
  \<open>'v\<close> and \<open>'t\<close>. An \<open>UncheckedComparator\<close> is used only through
  \<open>compareTypedValues\<close>, a boolean function of two values.
\<close>

type_synonym 'v PartitionValues = "'v list"
type_synonym 'v UncheckedComparator = "'v \<Rightarrow> 'v \<Rightarrow> bool"

datatype PartitionType = kHash | kRange

text \<open>
  What stops the program: a failed glog \<open>DCHECK\<close> (compiled in unless \<open>NDEBUG\<close> is
  defined), a failed \<open>CHECK\<close> (always compiled in), and the two undefined behaviours
  that the code can reach: \<open>std::vector::operator[]\<close> out of range and \<open>%\<close> by zero.
\<close>

datatype error = DCheckFailed | CheckFailed | OutOfRange | DivisionByZero

text \<open>The two preprocessor switches the header depends on.\<close>

record build_config =
  dcheck_is_on :: bool
  quickstep_debug :: bool

record PartitionSchemeHeader =
  partition_type :: PartitionType
  num_partitions :: size_t
  partition_attribute_ids :: "attribute_id list"

record ('t, 'v) RangePartitionSchemeHeader = PartitionSchemeHeader +
  partition_attr_types :: "'t list"
  partition_range_boundaries :: "'v PartitionValues list"
  less_unchecked_comparators :: "'v UncheckedComparator list"
  equal_unchecked_comparators :: "'v UncheckedComparator list"

section \<open>RangePartitionSchemeHeader::lessThan\<close>

text \<open>
  The \<open>for\<close> loop of \<open>lessThan\<close>, from \<open>attr_index\<close> on. \<open>break\<close> leaves the loop
  for the \<open>return true\<close> after it. Every \<open>operator[]\<close> is checked against the size of
  its vector. \<open>attr_index\<close> stays below \<open>partition_attribute_ids_.size()\<close>, so neither
  \<open>++attr_index\<close> nor \<open>size() - 1\<close> (evaluated inside the loop only) can wrap, and
  natural numbers model it exactly.
\<close>

function lessThan_loop ::
  "('t, 'v) RangePartitionSchemeHeader \<Rightarrow> 'v PartitionValues \<Rightarrow> 'v PartitionValues \<Rightarrow> nat
     \<Rightarrow> error + bool" where
  "lessThan_loop h lhs rhs attr_index =
     (if attr_index < length (partition_attribute_ids h) then
        (if length (less_unchecked_comparators h) \<le> attr_index
            \<or> length lhs \<le> attr_index \<or> length rhs \<le> attr_index
         then Inl OutOfRange
         else if (less_unchecked_comparators h ! attr_index) (lhs ! attr_index) (rhs ! attr_index)
         then Inr True
         else if length (equal_unchecked_comparators h) \<le> attr_index
         then Inl OutOfRange
         else if (equal_unchecked_comparators h ! attr_index) (lhs ! attr_index) (rhs ! attr_index)
         then (if attr_index = length (partition_attribute_ids h) - 1
               then Inr False
               else lessThan_loop h lhs rhs (attr_index + 1))
         else Inr False)
      else Inr True)"
  by pat_completeness auto
termination
  by (relation "measure (\<lambda>(h, lhs, rhs, attr_index). length (partition_attribute_ids h) - attr_index)")
     auto

declare lessThan_loop.simps [simp del]

text \<open>
  \<open>lessThan\<close> itself, with its two \<open>DCHECK_EQ\<close>; it is named \<open>lessThan_tuple\<close>
  here, \<open>lessThan\<close> being a constant of HOL.
\<close>

definition lessThan_tuple ::
  "build_config \<Rightarrow> ('t, 'v) RangePartitionSchemeHeader \<Rightarrow> 'v PartitionValues \<Rightarrow> 'v PartitionValues
     \<Rightarrow> error + bool" where
  "lessThan_tuple cfg h lhs rhs =
     (if dcheck_is_on cfg \<and> length (partition_attribute_ids h) \<noteq> length lhs then Inl DCheckFailed
      else if dcheck_is_on cfg \<and> length (partition_attribute_ids h) \<noteq> length rhs then Inl DCheckFailed
      else lessThan_loop h lhs rhs 0)"

section \<open>RangePartitionSchemeHeader::getPartitionId\<close>

text \<open>\<open>start + ((end - start) >> 1)\<close> on \<open>partition_id\<close>.\<close>

definition midpoint :: "partition_id \<Rightarrow> partition_id \<Rightarrow> partition_id" where
  "midpoint start end_id = start + drop_bit 1 (end_id - start)"

text \<open>The \<open>while (start < end)\<close> loop and the \<open>return start\<close> after it.\<close>

function getPartitionId_loop ::
  "build_config \<Rightarrow> ('t, 'v) RangePartitionSchemeHeader \<Rightarrow> 'v PartitionValues
     \<Rightarrow> partition_id \<Rightarrow> partition_id \<Rightarrow> error + partition_id" where
  "getPartitionId_loop cfg h value_of_attributes start end_id =
     (if start < end_id then
        (let mid = midpoint start end_id in
         if length (partition_range_boundaries h) \<le> unat mid then Inl OutOfRange
         else case lessThan_tuple cfg h value_of_attributes (partition_range_boundaries h ! unat mid) of
                Inl err \<Rightarrow> Inl err
              | Inr is_less \<Rightarrow>
                  if is_less then getPartitionId_loop cfg h value_of_attributes start mid
                  else getPartitionId_loop cfg h value_of_attributes (mid + 1) end_id)
      else Inr start)"
  by pat_completeness auto

lemma unat_midpoint:
  "start < end_id \<Longrightarrow> unat (midpoint start end_id) = unat start + (unat end_id - unat start) div 2"
proof -
  assume lt: "start < end_id"
  then have le: "unat start \<le> unat end_id"
    by (simp add: word_less_nat_alt)
  have d: "unat (end_id - start) = unat end_id - unat start"
    using lt by (simp add: unat_sub word_le_nat_alt word_less_nat_alt)
  have "unat (drop_bit 1 (end_id - start)) = drop_bit 1 (unat (end_id - start))"
    by (rule unat_drop_bit_eq)
  also have "\<dots> = (unat end_id - unat start) div 2"
    by (simp add: d drop_bit_eq_div)
  finally have h: "unat (drop_bit 1 (end_id - start)) = (unat end_id - unat start) div 2" .
  have bound: "unat start + (unat end_id - unat start) div 2 \<le> unat end_id"
    using le by arith
  have "unat end_id < 2 ^ LENGTH(64)"
    by (rule unsigned_less)
  with bound have "unat start + unat (drop_bit 1 (end_id - start)) < 2 ^ LENGTH(64)"
    using h by arith
  then have "unat (start + drop_bit 1 (end_id - start)) = unat start + unat (drop_bit 1 (end_id - start))"
    by (simp only: unat_add_lem)
  then show ?thesis
    by (simp only: midpoint_def h)
qed

lemma midpoint_less: "start < end_id \<Longrightarrow> midpoint start end_id < end_id"
  by (simp add: word_less_nat_alt unat_midpoint)

lemma midpoint_ge: "start < end_id \<Longrightarrow> start \<le> midpoint start end_id"
  by (simp add: word_le_nat_alt unat_midpoint)

lemma unat_midpoint_Suc:
  "start < end_id \<Longrightarrow> unat (midpoint start end_id + 1) = unat (midpoint start end_id) + 1"
proof -
  assume lt: "start < end_id"
  have "unat (midpoint start end_id) < unat end_id"
    using midpoint_less [OF lt] by (simp add: word_less_nat_alt)
  moreover have "unat end_id < 2 ^ LENGTH(64)"
    by (rule unsigned_less)
  ultimately have "unat (midpoint start end_id) + unat (1 :: 64 word) < 2 ^ LENGTH(64)"
    by simp
  then have "unat (midpoint start end_id + 1) = unat (midpoint start end_id) + unat (1 :: 64 word)"
    by (simp only: unat_add_lem)
  then show ?thesis by simp
qed

termination getPartitionId_loop
proof (relation "measure (\<lambda>(cfg, h, v, start, end_id). unat end_id - unat start)")
  show "wf (measure (\<lambda>(cfg, h, v, start, end_id). unat end_id - unat start))"
    by simp
next
  fix cfg :: build_config and h :: "('t, 'v) RangePartitionSchemeHeader"
    and value_of_attributes :: "'v list" and start end_id mid :: partition_id
  assume lt: "start < end_id" and mid: "mid = midpoint start end_id"
  have "unat mid < unat end_id"
    using midpoint_less [OF lt] mid by (simp add: word_less_nat_alt)
  moreover have "unat start \<le> unat mid"
    using midpoint_ge [OF lt] mid by (simp add: word_le_nat_alt)
  ultimately show "((cfg, h, value_of_attributes, start, mid), (cfg, h, value_of_attributes, start, end_id))
      \<in> measure (\<lambda>(cfg, h, v, start, end_id). unat end_id - unat start)"
    by simp
next
  fix cfg :: build_config and h :: "('t, 'v) RangePartitionSchemeHeader"
    and value_of_attributes :: "'v list" and start end_id mid :: partition_id
  assume lt: "start < end_id" and mid: "mid = midpoint start end_id"
  have "unat mid < unat end_id"
    using midpoint_less [OF lt] mid by (simp add: word_less_nat_alt)
  moreover have "unat start \<le> unat mid"
    using midpoint_ge [OF lt] mid by (simp add: word_le_nat_alt)
  moreover have "unat (mid + 1) = unat mid + 1"
    using unat_midpoint_Suc [OF lt] mid by simp
  ultimately show "((cfg, h, value_of_attributes, mid + 1, end_id), (cfg, h, value_of_attributes, start, end_id))
      \<in> measure (\<lambda>(cfg, h, v, start, end_id). unat end_id - unat start)"
    by simp
qed

declare getPartitionId_loop.simps [simp del]


text \<open>
  \<open>getPartitionId\<close> of the range strategy. \<open>partition_range_boundaries_.size() - 1\<close> is
  a subtraction on \<open>std::size_t\<close>: on an empty vector it wraps to \<open>2^64 - 1\<close>.
\<close>

definition Range_getPartitionId ::
  "build_config \<Rightarrow> ('t, 'v) RangePartitionSchemeHeader \<Rightarrow> 'v PartitionValues
     \<Rightarrow> error + partition_id" where
  "Range_getPartitionId cfg h value_of_attributes =
     (if dcheck_is_on cfg \<and> length (partition_attribute_ids h) \<noteq> length value_of_attributes
      then Inl DCheckFailed
      else
        (let end_id = word_of_nat (length (partition_range_boundaries h)) - 1 in
         if length (partition_range_boundaries h) \<le> unat end_id then Inl OutOfRange
         else case lessThan_tuple cfg h value_of_attributes (partition_range_boundaries h ! unat end_id) of
                Inl err \<Rightarrow> Inl err
              | Inr is_less \<Rightarrow>
                  if \<not> is_less then Inr (num_partitions h - 1)
                  else getPartitionId_loop cfg h value_of_attributes 0 end_id))"

section \<open>HashPartitionSchemeHeader::getPartitionId\<close>

text \<open>
  \<open>HashCompositeKey\<close> (utility/CompositeHash.hpp) is external: it is a parameter, a
  function from the values to a \<open>std::size_t\<close>.
\<close>

definition Hash_getPartitionId ::
  "build_config \<Rightarrow> ('v PartitionValues \<Rightarrow> size_t) \<Rightarrow> PartitionSchemeHeader \<Rightarrow> 'v PartitionValues
     \<Rightarrow> error + partition_id" where
  "Hash_getPartitionId cfg HashCompositeKey h value_of_attributes =
     (if dcheck_is_on cfg \<and> length (partition_attribute_ids h) \<noteq> length value_of_attributes
      then Inl DCheckFailed
      else if num_partitions h = 0 then Inl DivisionByZero
      else Inr (HashCompositeKey value_of_attributes mod num_partitions h))"

section \<open>Construction\<close>

text \<open>
  Modelled from the spec: the body of the base-class constructor
  \<open>PartitionSchemeHeader::PartitionSchemeHeader\<close> is in PartitionSchemeHeader.cpp, which is
  not among the sources. The descriptor's strategy tag, partition count and attribute ids
  are "constant for the object's lifetime": the constructor stores its three arguments.
\<close>

definition PartitionSchemeHeader_ctor ::
  "PartitionType \<Rightarrow> size_t \<Rightarrow> attribute_id list \<Rightarrow> PartitionSchemeHeader" where
  "PartitionSchemeHeader_ctor type n attr_ids =
     \<lparr>partition_type = type, num_partitions = n, partition_attribute_ids = attr_ids\<rparr>"

definition HashPartitionSchemeHeader_ctor :: "size_t \<Rightarrow> attribute_id list \<Rightarrow> PartitionSchemeHeader" where
  "HashPartitionSchemeHeader_ctor n attributes = PartitionSchemeHeader_ctor kHash n attributes"

text \<open>The first loop of \<open>checkPartitionRangeBoundaries\<close>: one \<open>CHECK_EQ\<close> per boundary.\<close>

fun checkPartitionRangeBoundaries_sizes ::
  "('t, 'v) RangePartitionSchemeHeader \<Rightarrow> 'v PartitionValues list \<Rightarrow> error + unit" where
  "checkPartitionRangeBoundaries_sizes h [] = Inr ()"
| "checkPartitionRangeBoundaries_sizes h (partition_range_boundary # rest) =
     (if length (partition_attribute_ids h) = length partition_range_boundary
      then checkPartitionRangeBoundaries_sizes h rest
      else Inl CheckFailed)"

text \<open>
  Its second loop, from \<open>part_id\<close> on; it is entered at \<open>part_id = 1\<close>, and \<open>part_id\<close>
  stays below the number of boundaries, so nothing wraps.
\<close>

function checkPartitionRangeBoundaries_loop ::
  "build_config \<Rightarrow> ('t, 'v) RangePartitionSchemeHeader \<Rightarrow> nat \<Rightarrow> error + unit" where
  "checkPartitionRangeBoundaries_loop cfg h part_id =
     (if part_id < length (partition_range_boundaries h) then
        (case lessThan_tuple cfg h (partition_range_boundaries h ! (part_id - 1))
                (partition_range_boundaries h ! part_id) of
           Inl err \<Rightarrow> Inl err
         | Inr is_less \<Rightarrow>
             if is_less then checkPartitionRangeBoundaries_loop cfg h (part_id + 1)
             else Inl CheckFailed)
      else Inr ())"
  by pat_completeness auto
termination
  by (relation "measure (\<lambda>(cfg, h, part_id). length (partition_range_boundaries h) - part_id)") auto

declare checkPartitionRangeBoundaries_loop.simps [simp del]

definition checkPartitionRangeBoundaries ::
  "build_config \<Rightarrow> ('t, 'v) RangePartitionSchemeHeader \<Rightarrow> error + unit" where
  "checkPartitionRangeBoundaries cfg h =
     (case checkPartitionRangeBoundaries_sizes h (partition_range_boundaries h) of
        Inl err \<Rightarrow> Inl err
      | Inr u \<Rightarrow> checkPartitionRangeBoundaries_loop cfg h 1)"

text \<open>
  The constructor of the range strategy. The comparator provider
  (\<open>LessComparison\<close>/\<open>EqualComparison::Instance().makeUncheckedComparatorForTypes(*type, *type)\<close>)
  is external: \<open>make_less\<close> and \<open>make_equal\<close> are parameters. \<open>num_partitions - 1\<close> is a
  subtraction on \<open>std::size_t\<close>.
\<close>

definition RangePartitionSchemeHeader_ctor ::
  "build_config \<Rightarrow> ('t \<Rightarrow> 'v UncheckedComparator) \<Rightarrow> ('t \<Rightarrow> 'v UncheckedComparator)
     \<Rightarrow> size_t \<Rightarrow> attribute_id list \<Rightarrow> 't list \<Rightarrow> 'v PartitionValues list
     \<Rightarrow> error + ('t, 'v) RangePartitionSchemeHeader" where
  "RangePartitionSchemeHeader_ctor cfg make_less make_equal n attributes
       partition_attribute_types partition_ranges =
     (let base = PartitionSchemeHeader_ctor kRange n attributes in
      if dcheck_is_on cfg \<and> length (partition_attribute_ids base) \<noteq> length partition_attribute_types
      then Inl DCheckFailed
      else if dcheck_is_on cfg \<and> unat (n - 1) \<noteq> length partition_ranges
      then Inl DCheckFailed
      else
        (let h = \<lparr>partition_type = partition_type base,
                  num_partitions = num_partitions base,
                  partition_attribute_ids = partition_attribute_ids base,
                  partition_attr_types = partition_attribute_types,
                  partition_range_boundaries = partition_ranges,
                  less_unchecked_comparators = map make_less partition_attribute_types,
                  equal_unchecked_comparators = map make_equal partition_attribute_types\<rparr>
         in if quickstep_debug cfg
            then (case checkPartitionRangeBoundaries cfg h of
                    Inl err \<Rightarrow> Inl err
                  | Inr u \<Rightarrow> Inr h)
            else Inr h))"

section \<open>The polymorphic descriptor\<close>

datatype ('t, 'v) descriptor =
  HashScheme PartitionSchemeHeader
| RangeScheme "('t, 'v) RangePartitionSchemeHeader"

text \<open>The virtual call \<open>getPartitionId\<close>, and the three inline accessors.\<close>

definition getPartitionId ::
  "build_config \<Rightarrow> ('v PartitionValues \<Rightarrow> size_t) \<Rightarrow> ('t, 'v) descriptor \<Rightarrow> 'v PartitionValues
     \<Rightarrow> error + partition_id" where
  "getPartitionId cfg HashCompositeKey d value_of_attributes =
     (case d of
        HashScheme h \<Rightarrow> Hash_getPartitionId cfg HashCompositeKey h value_of_attributes
      | RangeScheme h \<Rightarrow> Range_getPartitionId cfg h value_of_attributes)"

definition getPartitionType :: "('t, 'v) descriptor \<Rightarrow> PartitionType" where
  "getPartitionType d = (case d of HashScheme h \<Rightarrow> partition_type h | RangeScheme h \<Rightarrow> partition_type h)"

definition getNumPartitions :: "('t, 'v) descriptor \<Rightarrow> size_t" where
  "getNumPartitions d = (case d of HashScheme h \<Rightarrow> num_partitions h | RangeScheme h \<Rightarrow> num_partitions h)"

definition getPartitionAttributeIds :: "('t, 'v) descriptor \<Rightarrow> attribute_id list" where
  "getPartitionAttributeIds d =
     (case d of HashScheme h \<Rightarrow> partition_attribute_ids h | RangeScheme h \<Rightarrow> partition_attribute_ids h)"

section \<open>Serialization\<close>

text \<open>
  Modelled from the spec: \<open>getProto\<close>, \<open>ProtoIsValid\<close> and \<open>ReconstructFromProto\<close> are
  only declared in the header; their bodies (PartitionSchemeHeader.cpp) and the message
  type (Catalog.proto) are not among the sources. The serialized descriptor is "a record
  with fields strategyTag, partitionCount, attributeIds[] and, only for Range,
  attributeTypes[], boundaries[][]"; the two repeated fields of the range payload are
  empty lists for a hash descriptor. The tag is the value of the enum \<open>PartitionType\<close>
  (\<open>kHash = 0\<close>, \<open>kRange = 1\<close>).
\<close>

record ('t, 'v) descriptor_proto =
  strategyTag :: nat
  partitionCount :: size_t
  attributeIds :: "attribute_id list"
  attributeTypes :: "'t list"
  boundaries :: "'v PartitionValues list"

definition getProto :: "('t, 'v) descriptor \<Rightarrow> ('t, 'v) descriptor_proto" where
  "getProto d =
     (case d of
        HashScheme h \<Rightarrow>
          \<lparr>strategyTag = 0, partitionCount = num_partitions h,
           attributeIds = partition_attribute_ids h, attributeTypes = [], boundaries = []\<rparr>
      | RangeScheme h \<Rightarrow>
          \<lparr>strategyTag = 1, partitionCount = num_partitions h,
           attributeIds = partition_attribute_ids h,
           attributeTypes = partition_attr_types h,
           boundaries = partition_range_boundaries h\<rparr>)"

text \<open>
  Modelled from the spec: section 4.4, without the optional check that the boundaries
  ascend: the tag is known, the partition count is at least 1, the attribute-id list is
  not empty and, for Range, there is one type per attribute, there are
  \<open>partitionCount - 1\<close> boundary tuples, and each has one value per attribute.
\<close>

definition ProtoIsValid :: "('t, 'v) descriptor_proto \<Rightarrow> bool" where
  "ProtoIsValid proto =
     (if strategyTag proto = 0 then 1 \<le> partitionCount proto \<and> attributeIds proto \<noteq> []
      else if strategyTag proto = 1 then
        1 \<le> partitionCount proto \<and> attributeIds proto \<noteq> [] \<and>
        length (attributeTypes proto) = length (attributeIds proto) \<and>
        length (boundaries proto) = unat (partitionCount proto) - 1 \<and>
        list_all (\<lambda>b. length b = length (attributeIds proto)) (boundaries proto)
      else False)"

text \<open>
  Modelled from the spec: reconstruction "asserts validity as a fatal precondition" and
  then builds the concrete strategy with its constructor.
\<close>

definition ReconstructFromProto ::
  "build_config \<Rightarrow> ('t \<Rightarrow> 'v UncheckedComparator) \<Rightarrow> ('t \<Rightarrow> 'v UncheckedComparator)
     \<Rightarrow> ('t, 'v) descriptor_proto \<Rightarrow> error + ('t, 'v) descriptor" where
  "ReconstructFromProto cfg make_less make_equal proto =
     (if \<not> ProtoIsValid proto then Inl CheckFailed
      else if strategyTag proto = 0
      then Inr (HashScheme (HashPartitionSchemeHeader_ctor (partitionCount proto) (attributeIds proto)))
      else
        (case RangePartitionSchemeHeader_ctor cfg make_less make_equal (partitionCount proto)
                (attributeIds proto) (attributeTypes proto) (boundaries proto) of
           Inl err \<Rightarrow> Inl err
         | Inr h \<Rightarrow> Inr (RangeScheme h)))"

section \<open>Notions the properties are stated with\<close>

text \<open>
  The data-model invariants of a range descriptor: at least one partitioning attribute,
  one comparator of each kind per attribute, one boundary tuple less than there are
  partitions, and every boundary tuple as long as the attribute list.
\<close>

definition range_header_ok :: "('t, 'v) RangePartitionSchemeHeader \<Rightarrow> bool" where
  "range_header_ok h \<longleftrightarrow>
     partition_attribute_ids h \<noteq> [] \<and>
     length (less_unchecked_comparators h) = length (partition_attribute_ids h) \<and>
     length (equal_unchecked_comparators h) = length (partition_attribute_ids h) \<and>
     length (partition_range_boundaries h) + 1 = unat (num_partitions h) \<and>
     (\<forall>b \<in> set (partition_range_boundaries h). length b = length (partition_attribute_ids h))"

text \<open>
  What the comparator provider owes for one type: a value is not both less than and equal
  to another, less-than is transitive, equality is transitive, and less-than respects
  equality on either side.
\<close>

definition consistent_comparator :: "'v UncheckedComparator \<Rightarrow> 'v UncheckedComparator \<Rightarrow> bool" where
  "consistent_comparator less_op equal_op \<longleftrightarrow>
     (\<forall>a b. less_op a b \<longrightarrow> \<not> equal_op a b) \<and>
     (\<forall>a b c. less_op a b \<longrightarrow> less_op b c \<longrightarrow> less_op a c) \<and>
     (\<forall>a b c. equal_op a b \<longrightarrow> equal_op b c \<longrightarrow> equal_op a c) \<and>
     (\<forall>a b c. less_op a b \<longrightarrow> equal_op b c \<longrightarrow> less_op a c) \<and>
     (\<forall>a b c. equal_op a b \<longrightarrow> less_op b c \<longrightarrow> less_op a c)"

definition consistent_comparators :: "('t, 'v) RangePartitionSchemeHeader \<Rightarrow> bool" where
  "consistent_comparators h \<longleftrightarrow>
     (\<forall>i < length (partition_attribute_ids h).
        consistent_comparator (less_unchecked_comparators h ! i) (equal_unchecked_comparators h ! i))"

text \<open>
  The boundaries ascend: \<open>lessThan\<close> holds between each boundary and the next, which is
  what \<open>checkPartitionRangeBoundaries\<close> checks.
\<close>

definition ascending_boundaries :: "build_config \<Rightarrow> ('t, 'v) RangePartitionSchemeHeader \<Rightarrow> bool" where
  "ascending_boundaries cfg h \<longleftrightarrow>
     (\<forall>j. Suc j < length (partition_range_boundaries h) \<longrightarrow>
        lessThan_tuple cfg h (partition_range_boundaries h ! j)
          (partition_range_boundaries h ! Suc j) = Inr True)"

text \<open>
  A valid descriptor, for the round trip through the serialized form: the tag matches the
  variant, there is at least one partition and one attribute and, for a range descriptor,
  the data-model invariants hold, there is one type per attribute, the comparators are
  the provider's for these types, and the boundaries ascend.
\<close>

definition valid_descriptor ::
  "build_config \<Rightarrow> ('t \<Rightarrow> 'v UncheckedComparator) \<Rightarrow> ('t \<Rightarrow> 'v UncheckedComparator)
     \<Rightarrow> ('t, 'v) descriptor \<Rightarrow> bool" where
  "valid_descriptor cfg make_less make_equal d =
     (case d of
        HashScheme h \<Rightarrow>
          partition_type h = kHash \<and> 1 \<le> num_partitions h \<and> partition_attribute_ids h \<noteq> []
      | RangeScheme h \<Rightarrow>
          partition_type h = kRange \<and> range_header_ok h \<and>
          length (partition_attr_types h) = length (partition_attribute_ids h) \<and>
          less_unchecked_comparators h = map make_less (partition_attr_types h) \<and>
          equal_unchecked_comparators h = map make_equal (partition_attr_types h) \<and>
          ascending_boundaries cfg h)"

text \<open>
  The lexicographic order in closed form: some position is less, and every position before
  it is equal and not less. \<open>lex_less_from\<close> is the same from position \<open>n\<close> on.
\<close>

definition lex_less ::
  "('t, 'v) RangePartitionSchemeHeader \<Rightarrow> 'v PartitionValues \<Rightarrow> 'v PartitionValues \<Rightarrow> bool" where
  "lex_less h lhs rhs \<longleftrightarrow>
     (\<exists>i < length (partition_attribute_ids h).
        (less_unchecked_comparators h ! i) (lhs ! i) (rhs ! i) \<and>
        (\<forall>p < i. \<not> (less_unchecked_comparators h ! p) (lhs ! p) (rhs ! p) \<and>
                 (equal_unchecked_comparators h ! p) (lhs ! p) (rhs ! p)))"

definition lex_less_from ::
  "('t, 'v) RangePartitionSchemeHeader \<Rightarrow> 'v PartitionValues \<Rightarrow> 'v PartitionValues \<Rightarrow> nat \<Rightarrow> bool" where
  "lex_less_from h lhs rhs n \<longleftrightarrow>
     (\<exists>i. n \<le> i \<and> i < length (partition_attribute_ids h) \<and>
        (less_unchecked_comparators h ! i) (lhs ! i) (rhs ! i) \<and>
        (\<forall>p. n \<le> p \<and> p < i \<longrightarrow> \<not> (less_unchecked_comparators h ! p) (lhs ! p) (rhs ! p) \<and>
                 (equal_unchecked_comparators h ! p) (lhs ! p) (rhs ! p)))"

section \<open>Concrete descriptors\<close>

text \<open>
  The spec's scenario: three partitions, one integer attribute, boundaries \<open>[10, 20]\<close>.
  Values are integers; their comparators are \<open><\<close> and \<open>=\<close>.
\<close>

definition example_range :: "(unit, int) RangePartitionSchemeHeader" where
  "example_range =
     \<lparr>partition_type = kRange, num_partitions = 3, partition_attribute_ids = [0],
      partition_attr_types = [()], partition_range_boundaries = [[10], [20]],
      less_unchecked_comparators = [(<)], equal_unchecked_comparators = [(=)]\<rparr>"

text \<open>
  Two integer attributes, one boundary \<open>(1, 100)\<close>, two partitions.
\<close>

definition example_pair :: "(unit, int) RangePartitionSchemeHeader" where
  "example_pair =
     \<lparr>partition_type = kRange, num_partitions = 2, partition_attribute_ids = [0, 1],
      partition_attr_types = [(), ()], partition_range_boundaries = [[1, 100]],
      less_unchecked_comparators = [(<), (<)], equal_unchecked_comparators = [(=), (=)]\<rparr>"

text \<open>
  A range descriptor with a single partition, hence without a boundary.
\<close>

definition example_single :: "(unit, int) RangePartitionSchemeHeader" where
  "example_single =
     \<lparr>partition_type = kRange, num_partitions = 1, partition_attribute_ids = [0],
      partition_attr_types = [()], partition_range_boundaries = [],
      less_unchecked_comparators = [(<)], equal_unchecked_comparators = [(=)]\<rparr>"

text \<open>
  Four hash partitions on one attribute, and a composite hash that sends \<open>[7]\<close> to 23.
\<close>

definition example_hash :: PartitionSchemeHeader where
  "example_hash = HashPartitionSchemeHeader_ctor 4 [0]"

definition example_HashCompositeKey :: "int PartitionValues \<Rightarrow> size_t" where
  "example_HashCompositeKey value_of_attributes = word_of_int (sum_list value_of_attributes) + 16"

section \<open>What lessThan computes\<close>

lemma lex_less_from_0: "lex_less_from h lhs rhs 0 = lex_less h lhs rhs"
  by (auto simp: lex_less_from_def lex_less_def)

lemma lex_less_from_step:
  assumes "n < length (partition_attribute_ids h)"
  shows "lex_less_from h lhs rhs n \<longleftrightarrow>
     (less_unchecked_comparators h ! n) (lhs ! n) (rhs ! n) \<or>
     ((equal_unchecked_comparators h ! n) (lhs ! n) (rhs ! n) \<and> lex_less_from h lhs rhs (Suc n))"
proof (cases "(less_unchecked_comparators h ! n) (lhs ! n) (rhs ! n)")
  case True
  then have "lex_less_from h lhs rhs n"
    unfolding lex_less_from_def using assms by (intro exI [of _ n]) auto
  with True show ?thesis by simp
next
  case False
  have "lex_less_from h lhs rhs n \<longleftrightarrow>
     (equal_unchecked_comparators h ! n) (lhs ! n) (rhs ! n) \<and> lex_less_from h lhs rhs (Suc n)"
  proof
    assume "lex_less_from h lhs rhs n"
    then obtain i where i: "n \<le> i" "i < length (partition_attribute_ids h)"
        "(less_unchecked_comparators h ! i) (lhs ! i) (rhs ! i)"
        "\<forall>p. n \<le> p \<and> p < i \<longrightarrow> \<not> (less_unchecked_comparators h ! p) (lhs ! p) (rhs ! p) \<and>
                 (equal_unchecked_comparators h ! p) (lhs ! p) (rhs ! p)"
      unfolding lex_less_from_def by blast
    from i(1,3) False have "n \<noteq> i" by auto
    with i(1) have ni: "Suc n \<le> i" by simp
    then have "(equal_unchecked_comparators h ! n) (lhs ! n) (rhs ! n)"
      using i(4) by simp
    moreover have "lex_less_from h lhs rhs (Suc n)"
      unfolding lex_less_from_def using ni i(2,3,4) by (intro exI [of _ i]) auto
    ultimately show "(equal_unchecked_comparators h ! n) (lhs ! n) (rhs ! n) \<and> lex_less_from h lhs rhs (Suc n)"
      by simp
  next
    assume a: "(equal_unchecked_comparators h ! n) (lhs ! n) (rhs ! n) \<and> lex_less_from h lhs rhs (Suc n)"
    then obtain i where i: "Suc n \<le> i" "i < length (partition_attribute_ids h)"
        "(less_unchecked_comparators h ! i) (lhs ! i) (rhs ! i)"
        "\<forall>p. Suc n \<le> p \<and> p < i \<longrightarrow> \<not> (less_unchecked_comparators h ! p) (lhs ! p) (rhs ! p) \<and>
                 (equal_unchecked_comparators h ! p) (lhs ! p) (rhs ! p)"
      unfolding lex_less_from_def by blast
    have "\<forall>p. n \<le> p \<and> p < i \<longrightarrow> \<not> (less_unchecked_comparators h ! p) (lhs ! p) (rhs ! p) \<and>
                 (equal_unchecked_comparators h ! p) (lhs ! p) (rhs ! p)"
    proof (intro allI impI)
      fix p assume p: "n \<le> p \<and> p < i"
      show "\<not> (less_unchecked_comparators h ! p) (lhs ! p) (rhs ! p) \<and>
                 (equal_unchecked_comparators h ! p) (lhs ! p) (rhs ! p)"
      proof (cases "p = n")
        case True
        with False a show ?thesis by simp
      next
        case False
        with p have "Suc n \<le> p \<and> p < i" by simp
        with i(4) show ?thesis by blast
      qed
    qed
    then show "lex_less_from h lhs rhs n"
      unfolding lex_less_from_def using i(1,2,3) by (intro exI [of _ i]) auto
  qed
  with False show ?thesis by simp
qed

lemma lex_less_from_end:
  "length (partition_attribute_ids h) \<le> n \<Longrightarrow> \<not> lex_less_from h lhs rhs n"
  by (auto simp: lex_less_from_def)

lemma lessThan_loop_char:
  assumes "length (partition_attribute_ids h) \<le> length (less_unchecked_comparators h)"
    and "length (partition_attribute_ids h) \<le> length (equal_unchecked_comparators h)"
    and "length (partition_attribute_ids h) \<le> length lhs"
    and "length (partition_attribute_ids h) \<le> length rhs"
    and "n < length (partition_attribute_ids h)"
  shows "lessThan_loop h lhs rhs n = Inr (lex_less_from h lhs rhs n)"
  using assms
proof (induction h lhs rhs n rule: lessThan_loop.induct)
  case (1 h lhs rhs n)
  let ?LT = "(less_unchecked_comparators h ! n) (lhs ! n) (rhs ! n)"
  let ?EQ = "(equal_unchecked_comparators h ! n) (lhs ! n) (rhs ! n)"
  have inr: "\<not> (length (less_unchecked_comparators h) \<le> n \<or> length lhs \<le> n \<or> length rhs \<le> n)"
    "\<not> length (equal_unchecked_comparators h) \<le> n"
    using "1.prems" by auto
  show ?case
  proof (cases ?LT)
    case True
    then show ?thesis
      using "1.prems"(5) inr by (subst lessThan_loop.simps) (simp add: lex_less_from_step)
  next
    case notlt: False
    show ?thesis
    proof (cases ?EQ)
      case False
      then show ?thesis
        using notlt "1.prems"(5) inr by (subst lessThan_loop.simps) (simp add: lex_less_from_step)
    next
      case eq: True
      show ?thesis
      proof (cases "n = length (partition_attribute_ids h) - 1")
        case True
        then have "\<not> lex_less_from h lhs rhs (Suc n)"
          using "1.prems"(5) by (intro lex_less_from_end) simp
        then show ?thesis
          using notlt eq True "1.prems"(5) inr
          by (subst lessThan_loop.simps) (simp add: lex_less_from_step)
      next
        case False
        then have "Suc n < length (partition_attribute_ids h)"
          using "1.prems"(5) by simp
        then have "lessThan_loop h lhs rhs (n + 1) = Inr (lex_less_from h lhs rhs (n + 1))"
          using "1.IH" "1.prems" notlt eq False inr by simp
        then show ?thesis
          using notlt eq False "1.prems"(5) inr
          by (subst lessThan_loop.simps) (simp add: lex_less_from_step)
      qed
    qed
  qed
qed

lemma lessThan_tuple_lex_less:
  assumes "partition_attribute_ids h \<noteq> []"
    and "length (less_unchecked_comparators h) = length (partition_attribute_ids h)"
    and "length (equal_unchecked_comparators h) = length (partition_attribute_ids h)"
    and "length lhs = length (partition_attribute_ids h)"
    and "length rhs = length (partition_attribute_ids h)"
  shows "lessThan_tuple cfg h lhs rhs = Inr (lex_less h lhs rhs)"
proof -
  have "lessThan_loop h lhs rhs 0 = Inr (lex_less_from h lhs rhs 0)"
    using assms by (intro lessThan_loop_char) simp_all
  then show ?thesis
    using assms by (simp add: lessThan_tuple_def lex_less_from_0)
qed

lemma lex_less_trans:
  assumes cons: "consistent_comparators h"
    and ab: "lex_less h a b" and bc: "lex_less h b c"
  shows "lex_less h a c"
proof -
  let ?k = "length (partition_attribute_ids h)"
  let ?L = "\<lambda>p. less_unchecked_comparators h ! p"
  let ?E = "\<lambda>p. equal_unchecked_comparators h ! p"
  from ab obtain i where i: "i < ?k" "?L i (a ! i) (b ! i)"
      "\<forall>p<i. \<not> ?L p (a ! p) (b ! p) \<and> ?E p (a ! p) (b ! p)"
    unfolding lex_less_def by blast
  from bc obtain j where j: "j < ?k" "?L j (b ! j) (c ! j)"
      "\<forall>p<j. \<not> ?L p (b ! p) (c ! p) \<and> ?E p (b ! p) (c ! p)"
    unfolding lex_less_def by blast
  define m where "m = min i j"
  have mk: "m < ?k" using i(1) j(1) by (simp add: m_def)
  have cm: "\<And>p. p < ?k \<Longrightarrow> consistent_comparator (?L p) (?E p)"
    using cons by (simp add: consistent_comparators_def)
  have before: "\<not> ?L p (a ! p) (c ! p) \<and> ?E p (a ! p) (c ! p)" if "p < m" for p
  proof -
    from that have pi: "p < i" and pj: "p < j" and pk: "p < ?k"
      using mk i(1) by (simp_all add: m_def)
    have e1: "?E p (a ! p) (b ! p)" using i(3) pi by simp
    have e2: "?E p (b ! p) (c ! p)" using j(3) pj by simp
    have e: "?E p (a ! p) (c ! p)"
      using cm [OF pk] e1 e2 unfolding consistent_comparator_def by blast
    then have "\<not> ?L p (a ! p) (c ! p)"
      using cm [OF pk] unfolding consistent_comparator_def by blast
    with e show ?thesis by simp
  qed
  have at: "?L m (a ! m) (c ! m)"
  proof (cases i j rule: linorder_cases)
    case less
    then have "m = i" by (simp add: m_def)
    moreover have "?E i (b ! i) (c ! i)" using j(3) less by simp
    ultimately show ?thesis
      using cm [OF i(1)] i(2) unfolding consistent_comparator_def by blast
  next
    case equal
    then have "m = i" by (simp add: m_def)
    then show ?thesis
      using cm [OF i(1)] i(2) j(2) equal unfolding consistent_comparator_def by blast
  next
    case greater
    then have "m = j" by (simp add: m_def)
    moreover have "?E j (a ! j) (b ! j)" using i(3) greater by simp
    ultimately show ?thesis
      using cm [OF j(1)] j(2) unfolding consistent_comparator_def by blast
  qed
  show ?thesis
    unfolding lex_less_def using mk at before by blast
qed

section \<open>What the binary search computes\<close>

lemma getPartitionId_loop_least:
  assumes "\<forall>i<length (partition_range_boundaries h).
             lessThan_tuple cfg h v (partition_range_boundaries h ! i) = Inr (P i)"
    and "\<forall>i j. i \<le> j \<and> j < length (partition_range_boundaries h) \<and> P i \<longrightarrow> P j"
    and "unat end_id < length (partition_range_boundaries h)"
    and "start \<le> end_id"
    and "P (unat end_id)"
    and "\<forall>i<unat start. \<not> P i"
  shows "\<exists>r. getPartitionId_loop cfg h v start end_id = Inr r \<and> r \<le> end_id \<and> P (unat r)
            \<and> (\<forall>i<unat r. \<not> P i)"
  using assms
proof (induction cfg h v start end_id rule: getPartitionId_loop.induct)
  case (1 cfg h v start end_id)
  let ?bs = "partition_range_boundaries h"
  show ?case
  proof (cases "start < end_id")
    case False
    with "1.prems"(4) have "start = end_id" by simp
    then show ?thesis
      using "1.prems"(5,6) by (subst getPartitionId_loop.simps) simp
  next
    case True
    define mid where "mid = midpoint start end_id"
    have mid_lt: "unat mid < unat end_id"
      using midpoint_less [OF True] by (simp add: mid_def word_less_nat_alt)
    have mid_ge: "start \<le> mid"
      using midpoint_ge [OF True] by (simp add: mid_def)
    have mid_in: "unat mid < length ?bs"
      using mid_lt "1.prems"(3) by simp
    have cmp: "lessThan_tuple cfg h v (?bs ! unat mid) = Inr (P (unat mid))"
      using "1.prems"(1) mid_in by simp
    show ?thesis
    proof (cases "P (unat mid)")
      case pm: True
      have "\<exists>r. getPartitionId_loop cfg h v start mid = Inr r \<and> r \<le> mid \<and> P (unat r)
              \<and> (\<forall>i<unat r. \<not> P i)"
        using "1.IH"(1) [OF True mid_def _ cmp pm] mid_in "1.prems"(1,2,6) mid_ge pm
        by simp
      then obtain r where r: "getPartitionId_loop cfg h v start mid = Inr r" "r \<le> mid"
          "P (unat r)" "\<forall>i<unat r. \<not> P i"
        by blast
      have "r \<le> end_id"
        using r(2) mid_lt by (simp add: word_le_nat_alt)
      moreover have "getPartitionId_loop cfg h v start end_id = Inr r"
        using True mid_in cmp pm r(1)
        by (subst getPartitionId_loop.simps) (simp add: mid_def [symmetric] Let_def)
      ultimately show ?thesis using r(3,4) by blast
    next
      case pm: False
      have suc: "unat (mid + 1) = unat mid + 1"
        using unat_midpoint_Suc [OF True] by (simp add: mid_def)
      have le: "mid + 1 \<le> end_id"
        using suc mid_lt by (simp add: word_le_nat_alt)
      have below: "\<forall>i<unat (mid + 1). \<not> P i"
      proof (intro allI impI)
        fix i assume "i < unat (mid + 1)"
        then have "i \<le> unat mid" using suc by simp
        then show "\<not> P i"
          using "1.prems"(2) mid_in pm by blast
      qed
      have "\<exists>r. getPartitionId_loop cfg h v (mid + 1) end_id = Inr r \<and> r \<le> end_id \<and> P (unat r)
              \<and> (\<forall>i<unat r. \<not> P i)"
        using "1.IH"(2) [OF True mid_def _ cmp pm] mid_in "1.prems"(1,2,3,5) le below
        by simp
      then obtain r where r: "getPartitionId_loop cfg h v (mid + 1) end_id = Inr r" "r \<le> end_id"
          "P (unat r)" "\<forall>i<unat r. \<not> P i"
        by blast
      have "getPartitionId_loop cfg h v start end_id = Inr r"
        using True mid_in cmp pm r(1)
        by (subst getPartitionId_loop.simps) (simp add: mid_def [symmetric] Let_def)
      then show ?thesis using r(2,3,4) by blast
    qed
  qed
qed

lemma boundaries_adjacent:
  assumes ok: "range_header_ok h" and asc: "ascending_boundaries cfg h"
    and j: "Suc j < length (partition_range_boundaries h)"
  shows "lex_less h (partition_range_boundaries h ! j) (partition_range_boundaries h ! Suc j)"
proof -
  let ?bs = "partition_range_boundaries h"
  have "length (?bs ! j) = length (partition_attribute_ids h)"
    and "length (?bs ! Suc j) = length (partition_attribute_ids h)"
    using ok j by (simp_all add: range_header_ok_def)
  then have "lessThan_tuple cfg h (?bs ! j) (?bs ! Suc j) = Inr (lex_less h (?bs ! j) (?bs ! Suc j))"
    using ok by (intro lessThan_tuple_lex_less) (simp_all add: range_header_ok_def)
  moreover have "lessThan_tuple cfg h (?bs ! j) (?bs ! Suc j) = Inr True"
    using asc j by (simp add: ascending_boundaries_def)
  ultimately show ?thesis by simp
qed

lemma boundaries_pairwise:
  assumes ok: "range_header_ok h" and cons: "consistent_comparators h"
    and asc: "ascending_boundaries cfg h"
  shows "i < j \<Longrightarrow> j < length (partition_range_boundaries h) \<Longrightarrow>
    lex_less h (partition_range_boundaries h ! i) (partition_range_boundaries h ! j)"
proof (induction j)
  case 0
  then show ?case by simp
next
  case (Suc j)
  have adj: "lex_less h (partition_range_boundaries h ! j) (partition_range_boundaries h ! Suc j)"
    using boundaries_adjacent [OF ok asc] Suc.prems(2) by simp
  show ?case
  proof (cases "i = j")
    case True
    with adj show ?thesis by simp
  next
    case False
    with Suc.prems have "i < j" and "j < length (partition_range_boundaries h)" by simp_all
    then have "lex_less h (partition_range_boundaries h ! i) (partition_range_boundaries h ! j)"
      by (rule Suc.IH)
    then show ?thesis
      using adj by (rule lex_less_trans [OF cons])
  qed
qed

lemma lex_less_boundary_mono:
  assumes ok: "range_header_ok h" and cons: "consistent_comparators h"
    and asc: "ascending_boundaries cfg h"
    and "i \<le> j" and "j < length (partition_range_boundaries h)"
    and "lex_less h v (partition_range_boundaries h ! i)"
  shows "lex_less h v (partition_range_boundaries h ! j)"
proof (cases "i = j")
  case True
  with assms(6) show ?thesis by simp
next
  case False
  with assms(4) have "i < j" by simp
  then have "lex_less h (partition_range_boundaries h ! i) (partition_range_boundaries h ! j)"
    using boundaries_pairwise [OF ok cons asc] assms(5) by simp
  with assms(6) show ?thesis
    by (rule lex_less_trans [OF cons])
qed

lemma unat_last_boundary:
  assumes "range_header_ok h" and "partition_range_boundaries h \<noteq> []"
  shows "unat (word_of_nat (length (partition_range_boundaries h)) - 1 :: 64 word)
           = length (partition_range_boundaries h) - 1"
    and "unat (num_partitions h - 1) = length (partition_range_boundaries h)"
proof -
  let ?n = "length (partition_range_boundaries h)"
  have n: "?n + 1 = unat (num_partitions h)"
    using assms(1) by (simp add: range_header_ok_def)
  then have "?n \<le> unat (num_partitions h)" by simp
  then have u: "unat (word_of_nat ?n :: 64 word) = ?n"
    by (rule le_unat_uoi)
  have "?n \<noteq> 0" using assms(2) by simp
  with u have "(word_of_nat ?n :: 64 word) \<noteq> 0"
    by (metis unat_0)
  then have "unat (word_of_nat ?n - 1 :: 64 word) = unat (word_of_nat ?n :: 64 word) - 1"
    by (rule unat_minus_one)
  with u show "unat (word_of_nat ?n - 1 :: 64 word) = ?n - 1" by simp
  have "num_partitions h \<noteq> 0"
    using n by (metis Suc_eq_plus1 nat.simps(3) unat_0)
  then have "unat (num_partitions h - 1) = unat (num_partitions h) - 1"
    by (rule unat_minus_one)
  with n show "unat (num_partitions h - 1) = ?n" by simp
qed

lemma Range_getPartitionId_char:
  assumes ok: "range_header_ok h" and cons: "consistent_comparators h"
    and asc: "ascending_boundaries cfg h"
    and len: "length v = length (partition_attribute_ids h)"
    and ne: "partition_range_boundaries h \<noteq> []"
  shows "\<exists>r. Range_getPartitionId cfg h v = Inr r
            \<and> unat r \<le> length (partition_range_boundaries h)
            \<and> (\<forall>i<length (partition_range_boundaries h).
                  lex_less h v (partition_range_boundaries h ! i) \<longleftrightarrow> unat r \<le> i)"
proof -
  let ?bs = "partition_range_boundaries h"
  let ?n = "length ?bs"
  let ?P = "\<lambda>i. lex_less h v (?bs ! i)"
  define end_id :: "64 word" where "end_id = word_of_nat ?n - 1"
  have ue: "unat end_id = ?n - 1"
    using unat_last_boundary(1) [OF ok ne] by (simp add: end_id_def)
  have n0: "0 < ?n" using ne by simp
  have ein: "unat end_id < ?n" using ue n0 by simp
  have cmp: "\<forall>i<?n. lessThan_tuple cfg h v (?bs ! i) = Inr (?P i)"
  proof (intro allI impI)
    fix i assume "i < ?n"
    then have "length (?bs ! i) = length (partition_attribute_ids h)"
      using ok by (simp add: range_header_ok_def)
    then show "lessThan_tuple cfg h v (?bs ! i) = Inr (?P i)"
      using ok len by (intro lessThan_tuple_lex_less) (simp_all add: range_header_ok_def)
  qed
  have mono: "\<forall>i j. i \<le> j \<and> j < ?n \<and> ?P i \<longrightarrow> ?P j"
    using lex_less_boundary_mono [OF ok cons asc] by blast
  have cmp_end: "lessThan_tuple cfg h v (?bs ! unat end_id) = Inr (?P (unat end_id))"
    using cmp ein by simp
  show ?thesis
  proof (cases "?P (unat end_id)")
    case False
    have res: "Range_getPartitionId cfg h v = Inr (num_partitions h - 1)"
      using len ein cmp_end False
      by (simp add: Range_getPartitionId_def end_id_def [symmetric] Let_def)
    have un: "unat (num_partitions h - 1) = ?n"
      by (rule unat_last_boundary(2) [OF ok ne])
    have "\<forall>i<?n. \<not> ?P i"
    proof (intro allI impI)
      fix i assume "i < ?n"
      then have "i \<le> unat end_id" using ue by simp
      then show "\<not> ?P i" using mono ein False by blast
    qed
    with res un show ?thesis by simp
  next
    case True
    have res: "Range_getPartitionId cfg h v = getPartitionId_loop cfg h v 0 end_id"
      using len ein cmp_end True
      by (simp add: Range_getPartitionId_def end_id_def [symmetric] Let_def)
    have "\<exists>r. getPartitionId_loop cfg h v 0 end_id = Inr r \<and> r \<le> end_id \<and> ?P (unat r)
            \<and> (\<forall>i<unat r. \<not> ?P i)"
      using cmp mono ein True by (intro getPartitionId_loop_least) simp_all
    then obtain r where r: "getPartitionId_loop cfg h v 0 end_id = Inr r" "r \<le> end_id"
        "?P (unat r)" "\<forall>i<unat r. \<not> ?P i"
      by blast
    have rn: "unat r < ?n"
      using r(2) ein by (simp add: word_le_nat_alt)
    have "\<forall>i<?n. ?P i \<longleftrightarrow> unat r \<le> i"
    proof (intro allI impI iffI)
      fix i assume "i < ?n" "?P i"
      then show "unat r \<le> i" using r(4) by (meson not_le)
    next
      fix i assume "i < ?n" "unat r \<le> i"
      then show "?P i" using mono r(3) by blast
    qed
    with res r(1) rn show ?thesis by simp
  qed
qed

section \<open>The example descriptor\<close>

lemma consistent_comparator_int: "consistent_comparator ((<) :: int \<Rightarrow> int \<Rightarrow> bool) (=)"
  by (simp add: consistent_comparator_def)

lemma example_range_ok: "range_header_ok example_range"
  by (simp add: range_header_ok_def example_range_def)

lemma example_range_consistent: "consistent_comparators example_range"
  by (simp add: consistent_comparators_def example_range_def consistent_comparator_int)

lemma example_range_lessThan:
  "lessThan_tuple cfg example_range [a] [b] = Inr (a < b)"
  by (simp add: lessThan_tuple_def example_range_def lessThan_loop.simps)

lemma example_range_ascending: "ascending_boundaries cfg example_range"
proof -
  have "lessThan_tuple cfg example_range [10] [20] = Inr True"
    by (simp add: example_range_lessThan)
  then show ?thesis
    by (simp add: ascending_boundaries_def example_range_def less_Suc_eq)
qed

section \<open>Partition assignment of the range strategy\<close>

text \<open>
  Claim C1. For a range descriptor with at least two partitions and ascending boundaries
  \<open>b_0 .. b_(P-2)\<close>, and values as long as the attribute list, \<open>getPartitionId\<close>
  returns 0 when the values are less than \<open>b_0\<close>, returns \<open>j\<close> (for
  \<open>0 < j < P - 1\<close>) when the values are not less than \<open>b_(j-1)\<close> and less than
  \<open>b_j\<close>, and returns \<open>P - 1\<close> when the values are not less than \<open>b_(P-2)\<close>.
  The descriptor satisfies its data-model invariants and its comparators are consistent.
  The witness is the spec's scenario: with boundaries \<open>[10, 20]\<close> the values 5, 10, 15,
  20 and 1000 go to the partitions 0, 1, 1, 2 and 2.
\<close>

theorem Range_getPartitionId_partitions:
  assumes ok: "range_header_ok h" and cons: "consistent_comparators h"
    and asc: "ascending_boundaries cfg h"
    and P2: "2 \<le> num_partitions h"
    and len: "length v = length (partition_attribute_ids h)"
  shows "(lessThan_tuple cfg h v (partition_range_boundaries h ! 0) = Inr True
            \<longrightarrow> Range_getPartitionId cfg h v = Inr 0)
       \<and> (\<forall>j. 0 < j \<and> j < unat (num_partitions h) - 1
               \<and> lessThan_tuple cfg h v (partition_range_boundaries h ! (j - 1)) = Inr False
               \<and> lessThan_tuple cfg h v (partition_range_boundaries h ! j) = Inr True
            \<longrightarrow> Range_getPartitionId cfg h v = Inr (word_of_nat j))
       \<and> (lessThan_tuple cfg h v (partition_range_boundaries h ! (unat (num_partitions h) - 2)) = Inr False
            \<longrightarrow> Range_getPartitionId cfg h v = Inr (num_partitions h - 1))"
proof -
  let ?bs = "partition_range_boundaries h"
  let ?n = "length ?bs"
  have n: "?n + 1 = unat (num_partitions h)"
    using ok by (simp add: range_header_ok_def)
  have "2 \<le> unat (num_partitions h)"
    using P2 by (simp add: word_le_nat_alt)
  with n have n1: "1 \<le> ?n" by simp
  then have ne: "?bs \<noteq> []" by auto
  have cmp: "lessThan_tuple cfg h v (?bs ! i) = Inr (lex_less h v (?bs ! i))" if "i < ?n" for i
  proof -
    from that have "length (?bs ! i) = length (partition_attribute_ids h)"
      using ok by (simp add: range_header_ok_def)
    then show ?thesis
      using ok len by (intro lessThan_tuple_lex_less) (simp_all add: range_header_ok_def)
  qed
  obtain r where r: "Range_getPartitionId cfg h v = Inr r" "unat r \<le> ?n"
      "\<forall>i<?n. lex_less h v (?bs ! i) \<longleftrightarrow> unat r \<le> i"
    using Range_getPartitionId_char [OF ok cons asc len ne] by blast
  have first: "Range_getPartitionId cfg h v = Inr 0"
    if "lessThan_tuple cfg h v (?bs ! 0) = Inr True"
  proof -
    have "lex_less h v (?bs ! 0)" using that cmp [of 0] ne by simp
    moreover have "0 < ?n" using ne by simp
    ultimately have "unat r \<le> 0" using r(3) by blast
    then have "unat r = 0" by simp
    then have "r = 0" by (simp add: unat_eq_0)
    with r(1) show ?thesis by simp
  qed
  have middle: "Range_getPartitionId cfg h v = Inr (word_of_nat j)"
    if "0 < j \<and> j < unat (num_partitions h) - 1
         \<and> lessThan_tuple cfg h v (?bs ! (j - 1)) = Inr False
         \<and> lessThan_tuple cfg h v (?bs ! j) = Inr True" for j
  proof -
    from that n have j: "0 < j" "j < ?n" by auto
    have "\<not> lex_less h v (?bs ! (j - 1))" using that cmp [of "j - 1"] j by simp
    then have "\<not> unat r \<le> j - 1" using r(3) j by simp
    moreover have "lex_less h v (?bs ! j)" using that cmp [of j] j by simp
    then have "unat r \<le> j" using r(3) j by simp
    ultimately have "unat r = j" using j by arith
    then have "r = word_of_nat j" by auto
    with r(1) show ?thesis by simp
  qed
  have last: "Range_getPartitionId cfg h v = Inr (num_partitions h - 1)"
    if "lessThan_tuple cfg h v (?bs ! (unat (num_partitions h) - 2)) = Inr False"
  proof -
    have idx: "unat (num_partitions h) - 2 = ?n - 1" using n by arith
    have "\<not> lex_less h v (?bs ! (?n - 1))" using that cmp [of "?n - 1"] n1 idx by simp
    then have "\<not> unat r \<le> ?n - 1" using r(3) n1 by simp
    with r(2) have "unat r = ?n" by arith
    then have "unat r = unat (num_partitions h - 1)"
      using unat_last_boundary(2) [OF ok ne] by simp
    then have "r = num_partitions h - 1" by (simp add: word_unat_eq_iff)
    with r(1) show ?thesis by simp
  qed
  show ?thesis
    using first middle last by blast
qed

theorem Range_getPartitionId_partitions_witness:
  "\<forall>cfg. range_header_ok example_range \<and> consistent_comparators example_range
       \<and> ascending_boundaries cfg example_range \<and> 2 \<le> num_partitions example_range
       \<and> Range_getPartitionId cfg example_range [5] = Inr 0
       \<and> Range_getPartitionId cfg example_range [10] = Inr 1
       \<and> Range_getPartitionId cfg example_range [15] = Inr 1
       \<and> Range_getPartitionId cfg example_range [20] = Inr 2
       \<and> Range_getPartitionId cfg example_range [1000] = Inr 2"
proof
  fix cfg
  have P2: "2 \<le> num_partitions example_range"
    by (simp add: example_range_def)
  have len: "length [x] = length (partition_attribute_ids example_range)" for x :: int
    by (simp add: example_range_def)
  note part = Range_getPartitionId_partitions
    [OF example_range_ok example_range_consistent example_range_ascending P2 len, of cfg]
  have bs: "partition_range_boundaries example_range ! 0 = [10]"
    "partition_range_boundaries example_range ! (1 - 1) = [10]"
    "partition_range_boundaries example_range ! 1 = [20]"
    "partition_range_boundaries example_range ! Suc 0 = [20]"
    "partition_range_boundaries example_range ! (unat (num_partitions example_range) - 2) = [20]"
    "unat (num_partitions example_range) = 3"
    "num_partitions example_range - 1 = 2"
    by (simp_all add: example_range_def)
  have "Range_getPartitionId cfg example_range [5] = Inr 0"
    using part [of 5] by (simp add: bs example_range_lessThan)
  moreover have "Range_getPartitionId cfg example_range [10] = Inr (word_of_nat 1)"
    using part [of 10, THEN conjunct2, THEN conjunct1, THEN spec, of 1]
    by (simp add: bs example_range_lessThan)
  moreover have "Range_getPartitionId cfg example_range [15] = Inr (word_of_nat 1)"
    using part [of 15, THEN conjunct2, THEN conjunct1, THEN spec, of 1]
    by (simp add: bs example_range_lessThan)
  moreover have "Range_getPartitionId cfg example_range [20] = Inr 2"
    using part [of 20] by (simp add: bs example_range_lessThan)
  moreover have "Range_getPartitionId cfg example_range [1000] = Inr 2"
    using part [of 1000] by (simp add: bs example_range_lessThan)
  ultimately show "range_header_ok example_range \<and> consistent_comparators example_range
       \<and> ascending_boundaries cfg example_range \<and> 2 \<le> num_partitions example_range
       \<and> Range_getPartitionId cfg example_range [5] = Inr 0
       \<and> Range_getPartitionId cfg example_range [10] = Inr 1
       \<and> Range_getPartitionId cfg example_range [15] = Inr 1
       \<and> Range_getPartitionId cfg example_range [20] = Inr 2
       \<and> Range_getPartitionId cfg example_range [1000] = Inr 2"
    using example_range_ok example_range_consistent example_range_ascending P2 by simp
qed

subsection \<open>Values equal to a boundary\<close>

lemma lex_less_equal_left_irrefl:
  assumes cons: "consistent_comparators h"
    and eq: "\<forall>i<length (partition_attribute_ids h).
               (equal_unchecked_comparators h ! i) (v ! i) (b ! i)"
  shows "\<not> lex_less h v b"
proof
  assume "lex_less h v b"
  then obtain i where i: "i < length (partition_attribute_ids h)"
      "(less_unchecked_comparators h ! i) (v ! i) (b ! i)"
    unfolding lex_less_def by blast
  have "consistent_comparator (less_unchecked_comparators h ! i) (equal_unchecked_comparators h ! i)"
    using cons i(1) by (simp add: consistent_comparators_def)
  then have "\<not> (equal_unchecked_comparators h ! i) (v ! i) (b ! i)"
    using i(2) unfolding consistent_comparator_def by blast
  with eq i(1) show False by simp
qed

lemma lex_less_equal_left:
  assumes cons: "consistent_comparators h"
    and eq: "\<forall>i<length (partition_attribute_ids h).
               (equal_unchecked_comparators h ! i) (v ! i) (b ! i)"
    and bc: "lex_less h b c"
  shows "lex_less h v c"
proof -
  let ?k = "length (partition_attribute_ids h)"
  let ?L = "\<lambda>p. less_unchecked_comparators h ! p"
  let ?E = "\<lambda>p. equal_unchecked_comparators h ! p"
  from bc obtain i where i: "i < ?k" "?L i (b ! i) (c ! i)"
      "\<forall>p<i. \<not> ?L p (b ! p) (c ! p) \<and> ?E p (b ! p) (c ! p)"
    unfolding lex_less_def by blast
  have cm: "\<And>p. p < ?k \<Longrightarrow> consistent_comparator (?L p) (?E p)"
    using cons by (simp add: consistent_comparators_def)
  have at: "?L i (v ! i) (c ! i)"
    using cm [OF i(1)] eq i(1,2) unfolding consistent_comparator_def by blast
  have before: "\<not> ?L p (v ! p) (c ! p) \<and> ?E p (v ! p) (c ! p)" if "p < i" for p
  proof -
    from that i(1) have pk: "p < ?k" by simp
    have "?E p (v ! p) (b ! p)" using eq pk by simp
    moreover have "?E p (b ! p) (c ! p)" using i(3) that by simp
    ultimately have e: "?E p (v ! p) (c ! p)"
      using cm [OF pk] unfolding consistent_comparator_def by blast
    then have "\<not> ?L p (v ! p) (c ! p)"
      using cm [OF pk] unfolding consistent_comparator_def by blast
    with e show ?thesis by simp
  qed
  show ?thesis
    unfolding lex_less_def using i(1) at before by blast
qed

text \<open>
  Claim C2. For a range descriptor with ascending boundaries and an index \<open>j\<close> in
  \<open>[0, P - 2]\<close>, \<open>getPartitionId\<close> on values equal to the boundary \<open>b_j\<close> at every
  position (by that position's equality comparator) returns \<open>j + 1\<close>: a boundary tuple
  belongs to the partition above it.
\<close>

theorem Range_getPartitionId_boundary:
  assumes ok: "range_header_ok h" and cons: "consistent_comparators h"
    and asc: "ascending_boundaries cfg h"
    and j: "j < unat (num_partitions h) - 1"
    and len: "length v = length (partition_attribute_ids h)"
    and eq: "\<forall>i<length (partition_attribute_ids h).
               (equal_unchecked_comparators h ! i) (v ! i) (partition_range_boundaries h ! j ! i)"
  shows "Range_getPartitionId cfg h v = Inr (word_of_nat (j + 1))"
proof -
  let ?bs = "partition_range_boundaries h"
  let ?n = "length ?bs"
  have n: "?n + 1 = unat (num_partitions h)"
    using ok by (simp add: range_header_ok_def)
  with j have jn: "j < ?n" by arith
  then have ne: "?bs \<noteq> []" by auto
  obtain r where r: "Range_getPartitionId cfg h v = Inr r" "unat r \<le> ?n"
      "\<forall>i<?n. lex_less h v (?bs ! i) \<longleftrightarrow> unat r \<le> i"
    using Range_getPartitionId_char [OF ok cons asc len ne] by blast
  have "\<not> lex_less h v (?bs ! j)"
    using cons eq by (rule lex_less_equal_left_irrefl)
  then have lower: "\<not> unat r \<le> j"
    using r(3) jn by simp
  have upper: "unat r \<le> j + 1"
  proof (cases "j + 1 < ?n")
    case True
    then have "lex_less h (?bs ! j) (?bs ! Suc j)"
      using boundaries_adjacent [OF ok asc] by simp
    then have "lex_less h v (?bs ! Suc j)"
      by (rule lex_less_equal_left [OF cons eq])
    then show ?thesis using r(3) True by simp
  next
    case False
    with jn have "?n = j + 1" by arith
    with r(2) show ?thesis by simp
  qed
  from lower upper have u: "unat r = j + 1" by arith
  have "word_of_nat (unat r) = r" by simp
  then have "r = word_of_nat (j + 1)" by (simp only: u)
  with r(1) show ?thesis by (simp only:)
qed

theorem Range_getPartitionId_boundary_witness:
  "\<forall>cfg. range_header_ok example_range \<and> consistent_comparators example_range
      \<and> ascending_boundaries cfg example_range
      \<and> Range_getPartitionId cfg example_range [10] = Inr 1
      \<and> Range_getPartitionId cfg example_range [20] = Inr 2"
proof
  fix cfg
  have j: "0 < unat (num_partitions example_range) - 1" "1 < unat (num_partitions example_range) - 1"
    by (simp_all add: example_range_def)
  have len: "length [x] = length (partition_attribute_ids example_range)" for x :: int
    by (simp add: example_range_def)
  have e0: "\<forall>i<length (partition_attribute_ids example_range).
      (equal_unchecked_comparators example_range ! i) ([10] ! i)
        (partition_range_boundaries example_range ! 0 ! i)"
    by (simp add: example_range_def)
  have e1: "\<forall>i<length (partition_attribute_ids example_range).
      (equal_unchecked_comparators example_range ! i) ([20] ! i)
        (partition_range_boundaries example_range ! 1 ! i)"
    by (simp add: example_range_def)
  have "Range_getPartitionId cfg example_range [10] = Inr 1"
    using Range_getPartitionId_boundary
      [OF example_range_ok example_range_consistent example_range_ascending j(1) len e0, of cfg]
    by simp
  moreover have "Range_getPartitionId cfg example_range [20] = Inr 2"
    using Range_getPartitionId_boundary
      [OF example_range_ok example_range_consistent example_range_ascending j(2) len e1, of cfg]
    by simp
  ultimately show "range_header_ok example_range \<and> consistent_comparators example_range
      \<and> ascending_boundaries cfg example_range
      \<and> Range_getPartitionId cfg example_range [10] = Inr 1
      \<and> Range_getPartitionId cfg example_range [20] = Inr 2"
    using example_range_ok example_range_consistent example_range_ascending by simp
qed

subsection \<open>Monotonicity\<close>

text \<open>
  Without a boundary (one partition) the search reads \<open>partition_range_boundaries_[2^64 - 1]\<close>
  of an empty vector.
\<close>

lemma Range_getPartitionId_no_boundaries:
  assumes e: "partition_range_boundaries h = []"
    and len: "length v = length (partition_attribute_ids h)"
  shows "Range_getPartitionId cfg h v = Inl OutOfRange"
proof -
  have c: "length (partition_range_boundaries h)
      \<le> unat (word_of_nat (length (partition_range_boundaries h)) - 1 :: 64 word)"
    by (simp only: e list.size)
  show ?thesis
    by (simp only: Range_getPartitionId_def Let_def c len simp_thms if_True if_False)
qed

text \<open>
  Claim C3. For a range descriptor with ascending boundaries and two value tuples of the
  right length with \<open>v1\<close> less than \<open>v2\<close> in the lexicographic order of \<open>lessThan\<close>,
  the partition of \<open>v1\<close> is at most the partition of \<open>v2\<close>: whenever both calls
  return, and they do return when there are at least two partitions.
\<close>

theorem Range_getPartitionId_monotone:
  assumes ok: "range_header_ok h" and cons: "consistent_comparators h"
    and asc: "ascending_boundaries cfg h"
    and len1: "length v1 = length (partition_attribute_ids h)"
    and len2: "length v2 = length (partition_attribute_ids h)"
    and less: "lessThan_tuple cfg h v1 v2 = Inr True"
  shows "(\<forall>r1 r2. Range_getPartitionId cfg h v1 = Inr r1 \<and> Range_getPartitionId cfg h v2 = Inr r2
            \<longrightarrow> r1 \<le> r2)
       \<and> (2 \<le> num_partitions h \<longrightarrow>
            (\<exists>r1 r2. Range_getPartitionId cfg h v1 = Inr r1 \<and> Range_getPartitionId cfg h v2 = Inr r2
               \<and> r1 \<le> r2))"
proof (cases "partition_range_boundaries h = []")
  case True
  have "Range_getPartitionId cfg h v1 = Inl OutOfRange"
    using True len1 by (rule Range_getPartitionId_no_boundaries)
  moreover have "unat (num_partitions h) = 1"
    using ok True by (simp add: range_header_ok_def)
  then have "\<not> 2 \<le> num_partitions h"
    by (simp add: word_le_nat_alt)
  ultimately show ?thesis by simp
next
  case ne: False
  let ?bs = "partition_range_boundaries h"
  let ?n = "length ?bs"
  obtain r1 where r1: "Range_getPartitionId cfg h v1 = Inr r1" "unat r1 \<le> ?n"
      "\<forall>i<?n. lex_less h v1 (?bs ! i) \<longleftrightarrow> unat r1 \<le> i"
    using Range_getPartitionId_char [OF ok cons asc len1 ne] by blast
  obtain r2 where r2: "Range_getPartitionId cfg h v2 = Inr r2" "unat r2 \<le> ?n"
      "\<forall>i<?n. lex_less h v2 (?bs ! i) \<longleftrightarrow> unat r2 \<le> i"
    using Range_getPartitionId_char [OF ok cons asc len2 ne] by blast
  have "lessThan_tuple cfg h v1 v2 = Inr (lex_less h v1 v2)"
    using ok len1 len2 by (intro lessThan_tuple_lex_less) (simp_all add: range_header_ok_def)
  with less have l12: "lex_less h v1 v2" by simp
  have "unat r1 \<le> unat r2"
  proof (cases "unat r2 < ?n")
    case True
    then have "lex_less h v2 (?bs ! unat r2)" using r2(3) by simp
    with l12 have "lex_less h v1 (?bs ! unat r2)"
      by (rule lex_less_trans [OF cons])
    then show ?thesis using r1(3) True by simp
  next
    case False
    with r2(2) have "unat r2 = ?n" by simp
    with r1(2) show ?thesis by simp
  qed
  then have "r1 \<le> r2" by (simp add: word_le_nat_alt)
  with r1(1) r2(1) show ?thesis by simp
qed

theorem Range_getPartitionId_monotone_witness:
  "\<forall>cfg. range_header_ok example_range \<and> consistent_comparators example_range
      \<and> ascending_boundaries cfg example_range
      \<and> lessThan_tuple cfg example_range [5] [15] = Inr True
      \<and> 2 \<le> num_partitions example_range
      \<and> (\<exists>r1 r2. Range_getPartitionId cfg example_range [5] = Inr r1
            \<and> Range_getPartitionId cfg example_range [15] = Inr r2 \<and> r1 \<le> r2)"
proof
  fix cfg
  have P2: "2 \<le> num_partitions example_range"
    by (simp add: example_range_def)
  have len: "length [x] = length (partition_attribute_ids example_range)" for x :: int
    by (simp add: example_range_def)
  have less: "lessThan_tuple cfg example_range [5] [15] = Inr True"
    by (simp add: example_range_lessThan)
  show "range_header_ok example_range \<and> consistent_comparators example_range
      \<and> ascending_boundaries cfg example_range
      \<and> lessThan_tuple cfg example_range [5] [15] = Inr True
      \<and> 2 \<le> num_partitions example_range
      \<and> (\<exists>r1 r2. Range_getPartitionId cfg example_range [5] = Inr r1
            \<and> Range_getPartitionId cfg example_range [15] = Inr r2 \<and> r1 \<le> r2)"
    using Range_getPartitionId_monotone
      [OF example_range_ok example_range_consistent example_range_ascending len len less]
      example_range_ok example_range_consistent example_range_ascending less P2
    by simp
qed

section \<open>The lexicographic order of lessThan\<close>

lemma lex_less_first_difference:
  assumes excl: "\<forall>i<length (partition_attribute_ids h).
      \<not> ((less_unchecked_comparators h ! i) (lhs ! i) (rhs ! i)
         \<and> (equal_unchecked_comparators h ! i) (lhs ! i) (rhs ! i))"
  shows "lex_less h lhs rhs \<longleftrightarrow>
     (\<exists>i<length (partition_attribute_ids h).
        (\<forall>p<i. (equal_unchecked_comparators h ! p) (lhs ! p) (rhs ! p))
        \<and> \<not> (equal_unchecked_comparators h ! i) (lhs ! i) (rhs ! i)
        \<and> (less_unchecked_comparators h ! i) (lhs ! i) (rhs ! i))"
proof
  assume "lex_less h lhs rhs"
  then obtain i where i: "i < length (partition_attribute_ids h)"
      "(less_unchecked_comparators h ! i) (lhs ! i) (rhs ! i)"
      "\<forall>p<i. \<not> (less_unchecked_comparators h ! p) (lhs ! p) (rhs ! p) \<and>
                 (equal_unchecked_comparators h ! p) (lhs ! p) (rhs ! p)"
    unfolding lex_less_def by blast
  have "\<not> (equal_unchecked_comparators h ! i) (lhs ! i) (rhs ! i)"
    using excl i(1,2) by blast
  with i show "\<exists>i<length (partition_attribute_ids h).
        (\<forall>p<i. (equal_unchecked_comparators h ! p) (lhs ! p) (rhs ! p))
        \<and> \<not> (equal_unchecked_comparators h ! i) (lhs ! i) (rhs ! i)
        \<and> (less_unchecked_comparators h ! i) (lhs ! i) (rhs ! i)"
    by blast
next
  assume "\<exists>i<length (partition_attribute_ids h).
        (\<forall>p<i. (equal_unchecked_comparators h ! p) (lhs ! p) (rhs ! p))
        \<and> \<not> (equal_unchecked_comparators h ! i) (lhs ! i) (rhs ! i)
        \<and> (less_unchecked_comparators h ! i) (lhs ! i) (rhs ! i)"
  then obtain i where i: "i < length (partition_attribute_ids h)"
      "\<forall>p<i. (equal_unchecked_comparators h ! p) (lhs ! p) (rhs ! p)"
      "(less_unchecked_comparators h ! i) (lhs ! i) (rhs ! i)"
    by blast
  have "\<forall>p<i. \<not> (less_unchecked_comparators h ! p) (lhs ! p) (rhs ! p) \<and>
                 (equal_unchecked_comparators h ! p) (lhs ! p) (rhs ! p)"
  proof (intro allI impI)
    fix p assume p: "p < i"
    with i(1) have "p < length (partition_attribute_ids h)" by simp
    with excl i(2) p show "\<not> (less_unchecked_comparators h ! p) (lhs ! p) (rhs ! p) \<and>
                 (equal_unchecked_comparators h ! p) (lhs ! p) (rhs ! p)"
      by blast
  qed
  with i(1,3) show "lex_less h lhs rhs"
    unfolding lex_less_def by blast
qed

text \<open>
  Without a partitioning attribute the loop body never runs and \<open>lessThan\<close> returns
  true; the descriptor's attribute list is not empty, so this case does not arise.
\<close>

lemma lessThan_tuple_no_attributes:
  assumes "partition_attribute_ids h = []" and "lhs = []" and "rhs = []"
  shows "lessThan_tuple cfg h lhs rhs = Inr True"
  using assms by (simp add: lessThan_tuple_def lessThan_loop.simps)

text \<open>
  Claim C4. For two value tuples of the descriptor's length, \<open>lessThan\<close> returns true
  exactly when the first position at which the two are not equal (by that position's
  equality comparator) has the left value less than the right one (by its less-than
  comparator); it returns false when all positions are equal, and false when at the first
  differing position the left value is not less. The comparators of a position never
  call the two values at hand both less and equal.
\<close>

theorem lessThan_tuple_first_difference:
  assumes ne: "partition_attribute_ids h \<noteq> []"
    and ll: "length (less_unchecked_comparators h) = length (partition_attribute_ids h)"
    and le: "length (equal_unchecked_comparators h) = length (partition_attribute_ids h)"
    and l1: "length lhs = length (partition_attribute_ids h)"
    and l2: "length rhs = length (partition_attribute_ids h)"
    and excl: "\<forall>i<length (partition_attribute_ids h).
      \<not> ((less_unchecked_comparators h ! i) (lhs ! i) (rhs ! i)
         \<and> (equal_unchecked_comparators h ! i) (lhs ! i) (rhs ! i))"
  shows "lessThan_tuple cfg h lhs rhs =
       Inr (\<exists>i<length (partition_attribute_ids h).
              (\<forall>p<i. (equal_unchecked_comparators h ! p) (lhs ! p) (rhs ! p))
              \<and> \<not> (equal_unchecked_comparators h ! i) (lhs ! i) (rhs ! i)
              \<and> (less_unchecked_comparators h ! i) (lhs ! i) (rhs ! i))
     \<and> ((\<forall>p<length (partition_attribute_ids h).
            (equal_unchecked_comparators h ! p) (lhs ! p) (rhs ! p))
          \<longrightarrow> lessThan_tuple cfg h lhs rhs = Inr False)
     \<and> (\<forall>i<length (partition_attribute_ids h).
            (\<forall>p<i. (equal_unchecked_comparators h ! p) (lhs ! p) (rhs ! p))
            \<and> \<not> (equal_unchecked_comparators h ! i) (lhs ! i) (rhs ! i)
            \<and> \<not> (less_unchecked_comparators h ! i) (lhs ! i) (rhs ! i)
          \<longrightarrow> lessThan_tuple cfg h lhs rhs = Inr False)"
proof -
  let ?k = "length (partition_attribute_ids h)"
  let ?E = "\<lambda>p. (equal_unchecked_comparators h ! p) (lhs ! p) (rhs ! p)"
  let ?L = "\<lambda>p. (less_unchecked_comparators h ! p) (lhs ! p) (rhs ! p)"
  let ?first = "\<exists>i<?k. (\<forall>p<i. ?E p) \<and> \<not> ?E i \<and> ?L i"
  have "lessThan_tuple cfg h lhs rhs = Inr (lex_less h lhs rhs)"
    using ne ll le l1 l2 by (rule lessThan_tuple_lex_less)
  then have main: "lessThan_tuple cfg h lhs rhs = Inr ?first"
    using lex_less_first_difference [OF excl] by simp
  have all_eq: "\<not> ?first" if "\<forall>p<?k. ?E p"
    using that by blast
  have not_less: "\<not> ?first" if i: "i < ?k" "\<forall>p<i. ?E p" "\<not> ?E i" "\<not> ?L i" for i
  proof
    assume ?first
    then obtain i' where i': "i' < ?k" "\<forall>p<i'. ?E p" "\<not> ?E i'" "?L i'"
      by blast
    have "\<not> i' < i" using i(2) i'(3) by blast
    moreover have "\<not> i < i'" using i'(2) i(3) by blast
    ultimately have "i' = i" by simp
    with i(4) i'(4) show False by simp
  qed
  show ?thesis
    using main all_eq not_less by simp
qed

lemma example_pair_lessThan:
  "lessThan_tuple cfg example_pair [a, b] [c, d] = Inr (a < c \<or> (a = c \<and> b < d))"
  by (auto simp add: lessThan_tuple_def example_pair_def lessThan_loop.simps)

theorem lessThan_tuple_first_difference_witness:
  "\<forall>cfg. lessThan_tuple cfg example_pair [1, 50] [1, 100] = Inr True
      \<and> lessThan_tuple cfg example_pair [1, 100] [1, 100] = Inr False
      \<and> lessThan_tuple cfg example_pair [2, 0] [1, 100] = Inr False"
proof
  fix cfg
  have facts: "partition_attribute_ids example_pair \<noteq> []"
    "length (less_unchecked_comparators example_pair) = length (partition_attribute_ids example_pair)"
    "length (equal_unchecked_comparators example_pair) = length (partition_attribute_ids example_pair)"
    "length [a, b] = length (partition_attribute_ids example_pair)" for a b :: int
    by (simp_all add: example_pair_def)
  have excl: "\<forall>i<length (partition_attribute_ids example_pair).
      \<not> ((less_unchecked_comparators example_pair ! i) ([a, b] ! i) ([c, d] ! i)
         \<and> (equal_unchecked_comparators example_pair ! i) ([a, b] ! i) ([c, d] ! i))"
    for a b c d :: int
    by (simp add: example_pair_def less_Suc_eq)
  note first = lessThan_tuple_first_difference [OF facts(1,2,3) facts(4) facts(4) excl, of cfg]
  have k: "length (partition_attribute_ids example_pair) = 2"
    by (simp add: example_pair_def)
  have e0: "(equal_unchecked_comparators example_pair ! 0) = (=)"
    and l0: "(less_unchecked_comparators example_pair ! 0) = (<)"
    by (simp_all add: example_pair_def)
  have "lessThan_tuple cfg example_pair [1, 50] [1, 100] = Inr True"
  proof -
    have "\<exists>i<length (partition_attribute_ids example_pair).
              (\<forall>p<i. (equal_unchecked_comparators example_pair ! p) ([1, 50] ! p) ([1, 100] ! p))
              \<and> \<not> (equal_unchecked_comparators example_pair ! i) ([1, 50] ! i) ([1, 100] ! i)
              \<and> (less_unchecked_comparators example_pair ! i) ([1, 50] ! i) ([1, 100] ! i)"
      by (rule exI [of _ 1]) (simp add: example_pair_def)
    with first [of 1 50 1 100, THEN conjunct1] show ?thesis by simp
  qed
  moreover have "lessThan_tuple cfg example_pair [1, 100] [1, 100] = Inr False"
  proof -
    have "\<forall>p<length (partition_attribute_ids example_pair).
            (equal_unchecked_comparators example_pair ! p) ([1, 100] ! p) ([1, 100] ! p)"
      by (simp add: example_pair_def less_Suc_eq)
    with first [of 1 100 1 100, THEN conjunct2, THEN conjunct1] show ?thesis by blast
  qed
  moreover have "lessThan_tuple cfg example_pair [2, 0] [1, 100] = Inr False"
  proof -
    have "(\<forall>p<0. (equal_unchecked_comparators example_pair ! p) ([2, 0] ! p) ([1, 100] ! p))
            \<and> \<not> (equal_unchecked_comparators example_pair ! 0) ([2, 0] ! 0) ([1, 100] ! 0)
            \<and> \<not> (less_unchecked_comparators example_pair ! 0) ([2, 0] ! 0) ([1, 100] ! 0)"
      by (simp add: e0 l0)
    moreover have "0 < length (partition_attribute_ids example_pair)"
      by (simp add: k)
    ultimately show ?thesis
      using first [of 2 0 1 100, THEN conjunct2, THEN conjunct2] by blast
  qed
  ultimately show "lessThan_tuple cfg example_pair [1, 50] [1, 100] = Inr True
      \<and> lessThan_tuple cfg example_pair [1, 100] [1, 100] = Inr False
      \<and> lessThan_tuple cfg example_pair [2, 0] [1, 100] = Inr False"
    by simp
qed

section \<open>Partition assignment of the hash strategy\<close>

text \<open>
  Claim C5. For a hash descriptor with at least one partition and values of the right
  length, \<open>getPartitionId\<close> is the composite hash of the values modulo the partition
  count; equal value sequences get the same partition; and with four partitions and a
  composite hash of 23 the partition is 3.
\<close>

theorem Hash_getPartitionId_mod:
  assumes "1 \<le> num_partitions h"
    and "length v = length (partition_attribute_ids h)"
  shows "Hash_getPartitionId cfg HashCompositeKey h v = Inr (HashCompositeKey v mod num_partitions h)
       \<and> (\<forall>v'. v' = v \<longrightarrow>
             Hash_getPartitionId cfg HashCompositeKey h v' = Hash_getPartitionId cfg HashCompositeKey h v)
       \<and> (num_partitions h = 4 \<and> HashCompositeKey v = 23 \<longrightarrow>
             Hash_getPartitionId cfg HashCompositeKey h v = Inr 3)"
proof -
  have "num_partitions h \<noteq> 0"
    using assms(1) by auto
  then have "Hash_getPartitionId cfg HashCompositeKey h v
      = Inr (HashCompositeKey v mod num_partitions h)"
    using assms(2) by (simp add: Hash_getPartitionId_def)
  then show ?thesis by auto
qed

theorem Hash_getPartitionId_mod_witness:
  "\<forall>cfg. 1 \<le> num_partitions example_hash
      \<and> length [7 :: int] = length (partition_attribute_ids example_hash)
      \<and> num_partitions example_hash = 4
      \<and> example_HashCompositeKey [7] = 23
      \<and> Hash_getPartitionId cfg example_HashCompositeKey example_hash [7] = Inr 3"
proof
  fix cfg
  have a: "1 \<le> num_partitions example_hash"
    and b: "length [7 :: int] = length (partition_attribute_ids example_hash)"
    and c: "num_partitions example_hash = 4"
    by (simp_all add: example_hash_def HashPartitionSchemeHeader_ctor_def PartitionSchemeHeader_ctor_def)
  have d: "example_HashCompositeKey [7] = 23"
    by (simp add: example_HashCompositeKey_def)
  show "1 \<le> num_partitions example_hash
      \<and> length [7 :: int] = length (partition_attribute_ids example_hash)
      \<and> num_partitions example_hash = 4
      \<and> example_HashCompositeKey [7] = 23
      \<and> Hash_getPartitionId cfg example_HashCompositeKey example_hash [7] = Inr 3"
    using Hash_getPartitionId_mod [OF a b, of cfg example_HashCompositeKey] a b c d by blast
qed

section \<open>Termination and bounds of the binary search\<close>

text \<open>
  The search returns whatever the comparisons answer, as long as each one returns: the
  result lies between \<open>start\<close> and \<open>end\<close>, and no index leaves the boundary vector.
\<close>

lemma getPartitionId_loop_returns:
  assumes "\<forall>i<length (partition_range_boundaries h).
             \<exists>b. lessThan_tuple cfg h v (partition_range_boundaries h ! i) = Inr b"
    and "unat end_id < length (partition_range_boundaries h)"
    and "start \<le> end_id"
  shows "\<exists>r. getPartitionId_loop cfg h v start end_id = Inr r \<and> start \<le> r \<and> r \<le> end_id"
  using assms
proof (induction cfg h v start end_id rule: getPartitionId_loop.induct)
  case (1 cfg h v start end_id)
  let ?bs = "partition_range_boundaries h"
  show ?case
  proof (cases "start < end_id")
    case False
    then show ?thesis
      using "1.prems"(3) by (subst getPartitionId_loop.simps) simp
  next
    case True
    define mid where "mid = midpoint start end_id"
    have mid_lt: "unat mid < unat end_id"
      using midpoint_less [OF True] by (simp add: mid_def word_less_nat_alt)
    have mid_ge: "start \<le> mid"
      using midpoint_ge [OF True] by (simp add: mid_def)
    have mid_in: "unat mid < length ?bs"
      using mid_lt "1.prems"(2) by simp
    obtain b where cmp: "lessThan_tuple cfg h v (?bs ! unat mid) = Inr b"
      using "1.prems"(1) mid_in by blast
    show ?thesis
    proof (cases b)
      case True
      have "\<exists>r. getPartitionId_loop cfg h v start mid = Inr r \<and> start \<le> r \<and> r \<le> mid"
        using "1.IH"(1) [OF \<open>start < end_id\<close> mid_def _ cmp True] mid_in "1.prems"(1) mid_ge
        by simp
      then obtain r where r: "getPartitionId_loop cfg h v start mid = Inr r" "start \<le> r" "r \<le> mid"
        by blast
      have "r \<le> end_id"
        using r(3) mid_lt by (simp add: word_le_nat_alt)
      moreover have "getPartitionId_loop cfg h v start end_id = Inr r"
        using \<open>start < end_id\<close> mid_in cmp True r(1)
        by (subst getPartitionId_loop.simps) (simp add: mid_def [symmetric] Let_def)
      ultimately show ?thesis using r(2) by blast
    next
      case False
      have suc: "unat (mid + 1) = unat mid + 1"
        using unat_midpoint_Suc [OF True] by (simp add: mid_def)
      have le: "mid + 1 \<le> end_id"
        using suc mid_lt by (simp add: word_le_nat_alt)
      have "\<exists>r. getPartitionId_loop cfg h v (mid + 1) end_id = Inr r \<and> mid + 1 \<le> r \<and> r \<le> end_id"
        using "1.IH"(2) [OF \<open>start < end_id\<close> mid_def _ cmp False] mid_in "1.prems"(1,2) le
        by simp
      then obtain r where r: "getPartitionId_loop cfg h v (mid + 1) end_id = Inr r"
          "mid + 1 \<le> r" "r \<le> end_id"
        by blast
      have "start \<le> r"
        using r(2) suc mid_ge by (simp add: word_le_nat_alt)
      moreover have "getPartitionId_loop cfg h v start end_id = Inr r"
        using \<open>start < end_id\<close> mid_in cmp False r(1)
        by (subst getPartitionId_loop.simps) (simp add: mid_def [symmetric] Let_def)
      ultimately show ?thesis using r(3) by blast
    qed
  qed
qed

lemma Range_getPartitionId_returns:
  assumes ok: "range_header_ok h"
    and ne: "partition_range_boundaries h \<noteq> []"
    and len: "length v = length (partition_attribute_ids h)"
  shows "\<exists>r. Range_getPartitionId cfg h v = Inr r \<and> r < num_partitions h"
proof -
  let ?bs = "partition_range_boundaries h"
  let ?n = "length ?bs"
  define end_id :: "64 word" where "end_id = word_of_nat ?n - 1"
  have ue: "unat end_id = ?n - 1"
    using unat_last_boundary(1) [OF ok ne] by (simp add: end_id_def)
  have n0: "0 < ?n" using ne by simp
  have ein: "unat end_id < ?n" using ue n0 by simp
  have n: "?n + 1 = unat (num_partitions h)"
    using ok by (simp add: range_header_ok_def)
  have cmp: "\<forall>i<?n. \<exists>b. lessThan_tuple cfg h v (?bs ! i) = Inr b"
  proof (intro allI impI)
    fix i assume "i < ?n"
    then have "length (?bs ! i) = length (partition_attribute_ids h)"
      using ok by (simp add: range_header_ok_def)
    then have "lessThan_tuple cfg h v (?bs ! i) = Inr (lex_less h v (?bs ! i))"
      using ok len by (intro lessThan_tuple_lex_less) (simp_all add: range_header_ok_def)
    then show "\<exists>b. lessThan_tuple cfg h v (?bs ! i) = Inr b" by blast
  qed
  then obtain b where b: "lessThan_tuple cfg h v (?bs ! unat end_id) = Inr b"
    using ein by blast
  show ?thesis
  proof (cases b)
    case False
    have res: "Range_getPartitionId cfg h v = Inr (num_partitions h - 1)"
      using len ein b False
      by (simp add: Range_getPartitionId_def end_id_def [symmetric] Let_def)
    have "unat (num_partitions h - 1) = ?n"
      by (rule unat_last_boundary(2) [OF ok ne])
    with n have "num_partitions h - 1 < num_partitions h"
      by (simp add: word_less_nat_alt)
    with res show ?thesis by simp
  next
    case True
    have res: "Range_getPartitionId cfg h v = getPartitionId_loop cfg h v 0 end_id"
      using len ein b True
      by (simp add: Range_getPartitionId_def end_id_def [symmetric] Let_def)
    obtain r where r: "getPartitionId_loop cfg h v 0 end_id = Inr r" "r \<le> end_id"
      using getPartitionId_loop_returns [OF cmp ein, of 0] by auto
    have "unat r < unat (num_partitions h)"
      using r(2) ein n by (simp add: word_le_nat_alt)
    then have "r < num_partitions h"
      by (simp add: word_less_nat_alt)
    with res r(1) show ?thesis by simp
  qed
qed

lemma Hash_getPartitionId_in_range:
  assumes "1 \<le> num_partitions h"
    and "length v = length (partition_attribute_ids h)"
  shows "\<exists>r. Hash_getPartitionId cfg HashCompositeKey h v = Inr r \<and> r < num_partitions h"
proof -
  have nz: "num_partitions h \<noteq> 0"
    using assms(1) by auto
  then have "0 < num_partitions h"
    by (simp add: word_greater_zero_iff)
  then have "HashCompositeKey v mod num_partitions h < num_partitions h"
    by (rule word_mod_less_divisor)
  then show ?thesis
    using nz assms(2) by (simp add: Hash_getPartitionId_def)
qed

lemma midpoint_decreases:
  assumes lt: "start < end_id"
  shows "midpoint start end_id - start < end_id - start"
    and "end_id - (midpoint start end_id + 1) < end_id - start"
proof -
  let ?mid = "midpoint start end_id"
  have se: "unat start < unat end_id"
    using lt by (simp add: word_less_nat_alt)
  have ms: "unat start \<le> unat ?mid"
    using midpoint_ge [OF lt] by (simp add: word_le_nat_alt)
  have me: "unat ?mid < unat end_id"
    using midpoint_less [OF lt] by (simp add: word_less_nat_alt)
  have suc: "unat (?mid + 1) = unat ?mid + 1"
    by (rule unat_midpoint_Suc [OF lt])
  have d1: "unat (?mid - start) = unat ?mid - unat start"
    using ms by (simp add: unat_sub word_le_nat_alt)
  have d2: "unat (end_id - start) = unat end_id - unat start"
    using se by (simp add: unat_sub word_le_nat_alt)
  have d3: "unat (end_id - (?mid + 1)) = unat end_id - (unat ?mid + 1)"
    using me suc by (simp add: unat_sub word_le_nat_alt)
  show "?mid - start < end_id - start"
    using ms me by (simp add: word_less_nat_alt d1 d2)
  show "end_id - (?mid + 1) < end_id - start"
    using ms me se by (simp add: word_less_nat_alt d2 d3)
qed

text \<open>
  Claim C10. For a range descriptor with at least two partitions (at least one boundary)
  and values of the right length, \<open>getPartitionId\<close> returns a partition id: the model
  answers \<open>OutOfRange\<close> for any index outside the boundary vector, so a returned id means
  that every index was inside it. The first index read is \<open>P - 2\<close>. In the loop, while
  \<open>start < end\<close>, the midpoint satisfies \<open>start \<le> mid < end\<close>, so both \<open>end = mid\<close> and
  \<open>start = mid + 1\<close> make \<open>end - start\<close> strictly smaller, and the midpoint is at most
  \<open>P - 2\<close> when \<open>end\<close> is. The loop function itself is total: its termination proof uses
  the measure \<open>end - start\<close>.
\<close>

theorem getPartitionId_loop_terminates:
  assumes ok: "range_header_ok h"
    and P2: "2 \<le> num_partitions h"
    and len: "length v = length (partition_attribute_ids h)"
  shows "(\<exists>r. Range_getPartitionId cfg h v = Inr r \<and> r < num_partitions h)
       \<and> unat (word_of_nat (length (partition_range_boundaries h)) - 1 :: 64 word)
           = unat (num_partitions h) - 2
       \<and> (\<forall>start end_id. start < end_id \<longrightarrow>
             start \<le> midpoint start end_id \<and> midpoint start end_id < end_id
             \<and> midpoint start end_id - start < end_id - start
             \<and> end_id - (midpoint start end_id + 1) < end_id - start
             \<and> (unat end_id \<le> unat (num_partitions h) - 2
                  \<longrightarrow> unat (midpoint start end_id) \<le> unat (num_partitions h) - 2))"
proof -
  let ?n = "length (partition_range_boundaries h)"
  have n: "?n + 1 = unat (num_partitions h)"
    using ok by (simp add: range_header_ok_def)
  have "2 \<le> unat (num_partitions h)"
    using P2 by (simp add: word_le_nat_alt)
  with n have "1 \<le> ?n" by simp
  then have ne: "partition_range_boundaries h \<noteq> []" by auto
  have returns: "\<exists>r. Range_getPartitionId cfg h v = Inr r \<and> r < num_partitions h"
    using ok ne len by (rule Range_getPartitionId_returns)
  have first: "unat (word_of_nat ?n - 1 :: 64 word) = unat (num_partitions h) - 2"
    using unat_last_boundary(1) [OF ok ne] n by simp
  have step: "start \<le> midpoint start end_id \<and> midpoint start end_id < end_id
             \<and> midpoint start end_id - start < end_id - start
             \<and> end_id - (midpoint start end_id + 1) < end_id - start
             \<and> (unat end_id \<le> unat (num_partitions h) - 2
                  \<longrightarrow> unat (midpoint start end_id) \<le> unat (num_partitions h) - 2)"
    if lt: "start < end_id" for start end_id :: partition_id
  proof -
    have "unat (midpoint start end_id) < unat end_id"
      using midpoint_less [OF lt] by (simp add: word_less_nat_alt)
    then show ?thesis
      using midpoint_ge [OF lt] midpoint_less [OF lt] midpoint_decreases [OF lt] by simp
  qed
  show ?thesis
    using returns first step by blast
qed

theorem getPartitionId_loop_terminates_witness:
  "\<forall>cfg. range_header_ok example_range \<and> 2 \<le> num_partitions example_range
      \<and> (\<exists>r. Range_getPartitionId cfg example_range [15] = Inr r \<and> r < num_partitions example_range)
      \<and> (0 :: partition_id) < 1 \<and> midpoint 0 1 = 0"
proof
  fix cfg
  have P2: "2 \<le> num_partitions example_range"
    by (simp add: example_range_def)
  have len: "length [15 :: int] = length (partition_attribute_ids example_range)"
    by (simp add: example_range_def)
  have lt: "(0 :: partition_id) < 1" by simp
  have "midpoint 0 1 = 0"
    by (simp add: midpoint_def)
  then show "range_header_ok example_range \<and> 2 \<le> num_partitions example_range
      \<and> (\<exists>r. Range_getPartitionId cfg example_range [15] = Inr r \<and> r < num_partitions example_range)
      \<and> (0 :: partition_id) < 1 \<and> midpoint 0 1 = 0"
    using getPartitionId_loop_terminates [OF example_range_ok P2 len, of cfg] example_range_ok P2 lt
    by blast
qed

section \<open>Validated construction\<close>

lemma checkPartitionRangeBoundaries_sizes_eq:
  "checkPartitionRangeBoundaries_sizes h bs =
     (if \<forall>b \<in> set bs. length b = length (partition_attribute_ids h) then Inr () else Inl CheckFailed)"
  by (induction bs) auto

lemma checkPartitionRangeBoundaries_loop_eq:
  "0 < part_id \<Longrightarrow>
   checkPartitionRangeBoundaries_loop cfg h part_id = Inr () \<longleftrightarrow>
     (\<forall>j. part_id \<le> j \<and> j < length (partition_range_boundaries h) \<longrightarrow>
        lessThan_tuple cfg h (partition_range_boundaries h ! (j - 1))
          (partition_range_boundaries h ! j) = Inr True)"
proof (induction cfg h part_id rule: checkPartitionRangeBoundaries_loop.induct)
  case (1 cfg h part_id)
  let ?bs = "partition_range_boundaries h"
  let ?lt = "\<lambda>j. lessThan_tuple cfg h (?bs ! (j - 1)) (?bs ! j)"
  show ?case
  proof (cases "part_id < length ?bs")
    case False
    then have "checkPartitionRangeBoundaries_loop cfg h part_id = Inr ()"
      by (subst checkPartitionRangeBoundaries_loop.simps) simp
    moreover have "\<forall>j. part_id \<le> j \<and> j < length ?bs \<longrightarrow> ?lt j = Inr True"
      using False by auto
    ultimately show ?thesis by blast
  next
    case True
    show ?thesis
    proof (cases "?lt part_id = Inr True")
      case ok: True
      have "checkPartitionRangeBoundaries_loop cfg h part_id
          = checkPartitionRangeBoundaries_loop cfg h (part_id + 1)"
        using True ok by (subst checkPartitionRangeBoundaries_loop.simps) simp
      moreover have "checkPartitionRangeBoundaries_loop cfg h (part_id + 1) = Inr () \<longleftrightarrow>
          (\<forall>j. part_id + 1 \<le> j \<and> j < length ?bs \<longrightarrow> ?lt j = Inr True)"
        using "1.IH" [OF True ok] by simp
      moreover have "(\<forall>j. part_id + 1 \<le> j \<and> j < length ?bs \<longrightarrow> ?lt j = Inr True)
          \<longleftrightarrow> (\<forall>j. part_id \<le> j \<and> j < length ?bs \<longrightarrow> ?lt j = Inr True)"
      proof
        assume a: "\<forall>j. part_id + 1 \<le> j \<and> j < length ?bs \<longrightarrow> ?lt j = Inr True"
        show "\<forall>j. part_id \<le> j \<and> j < length ?bs \<longrightarrow> ?lt j = Inr True"
        proof (intro allI impI)
          fix j assume j: "part_id \<le> j \<and> j < length ?bs"
          show "?lt j = Inr True"
          proof (cases "j = part_id")
            case True
            with ok show ?thesis by simp
          next
            case False
            with j have "part_id + 1 \<le> j \<and> j < length ?bs" by simp
            with a show ?thesis by blast
          qed
        qed
      next
        assume "\<forall>j. part_id \<le> j \<and> j < length ?bs \<longrightarrow> ?lt j = Inr True"
        then show "\<forall>j. part_id + 1 \<le> j \<and> j < length ?bs \<longrightarrow> ?lt j = Inr True"
          by simp
      qed
      ultimately show ?thesis by simp
    next
      case bad: False
      have "checkPartitionRangeBoundaries_loop cfg h part_id \<noteq> Inr ()"
        using True bad
        by (subst checkPartitionRangeBoundaries_loop.simps) (auto split: sum.splits)
      moreover have "\<not> (\<forall>j. part_id \<le> j \<and> j < length ?bs \<longrightarrow> ?lt j = Inr True)"
        using True bad by blast
      ultimately show ?thesis by simp
    qed
  qed
qed

lemma checkPartitionRangeBoundaries_Inr:
  "checkPartitionRangeBoundaries cfg h = Inr () \<longleftrightarrow>
     (\<forall>b \<in> set (partition_range_boundaries h). length b = length (partition_attribute_ids h))
     \<and> ascending_boundaries cfg h"
proof -
  let ?bs = "partition_range_boundaries h"
  have "(\<forall>j. 1 \<le> j \<and> j < length ?bs \<longrightarrow>
          lessThan_tuple cfg h (?bs ! (j - 1)) (?bs ! j) = Inr True)
      \<longleftrightarrow> ascending_boundaries cfg h"
    unfolding ascending_boundaries_def
  proof
    assume a: "\<forall>j. 1 \<le> j \<and> j < length ?bs \<longrightarrow>
          lessThan_tuple cfg h (?bs ! (j - 1)) (?bs ! j) = Inr True"
    show "\<forall>j. Suc j < length ?bs \<longrightarrow> lessThan_tuple cfg h (?bs ! j) (?bs ! Suc j) = Inr True"
    proof (intro allI impI)
      fix j assume "Suc j < length ?bs"
      then show "lessThan_tuple cfg h (?bs ! j) (?bs ! Suc j) = Inr True"
        using a [rule_format, of "Suc j"] by simp
    qed
  next
    assume a: "\<forall>j. Suc j < length ?bs \<longrightarrow> lessThan_tuple cfg h (?bs ! j) (?bs ! Suc j) = Inr True"
    show "\<forall>j. 1 \<le> j \<and> j < length ?bs \<longrightarrow>
          lessThan_tuple cfg h (?bs ! (j - 1)) (?bs ! j) = Inr True"
    proof (intro allI impI)
      fix j assume j: "1 \<le> j \<and> j < length ?bs"
      then obtain j' where "j = Suc j'" by (cases j) auto
      with j show "lessThan_tuple cfg h (?bs ! (j - 1)) (?bs ! j) = Inr True"
        using a [rule_format, of j'] by simp
    qed
  qed
  then show ?thesis
    using checkPartitionRangeBoundaries_loop_eq [of 1 cfg h]
    by (simp add: checkPartitionRangeBoundaries_def checkPartitionRangeBoundaries_sizes_eq)
qed

lemma example_range_constructed:
  "RangePartitionSchemeHeader_ctor cfg (\<lambda>t. (<)) (\<lambda>t. (=)) 3 [0] [()] [[10], [20]] = Inr example_range"
  by (simp add: RangePartitionSchemeHeader_ctor_def PartitionSchemeHeader_ctor_def Let_def
      checkPartitionRangeBoundaries_def checkPartitionRangeBoundaries_loop.simps
      lessThan_tuple_def lessThan_loop.simps example_range_def)

lemma descending_boundaries_rejected:
  "quickstep_debug cfg \<Longrightarrow>
   RangePartitionSchemeHeader_ctor cfg (\<lambda>t. (<)) (\<lambda>t. (=)) 3 [0] [()] [[20], [10 :: int]]
     = Inl CheckFailed"
  by (simp add: RangePartitionSchemeHeader_ctor_def PartitionSchemeHeader_ctor_def Let_def
      checkPartitionRangeBoundaries_def checkPartitionRangeBoundaries_loop.simps
      lessThan_tuple_def lessThan_loop.simps)

lemma short_boundary_rejected:
  "quickstep_debug cfg \<Longrightarrow>
   RangePartitionSchemeHeader_ctor cfg (\<lambda>t. (<)) (\<lambda>t. (=)) 3 [0] [()] [[10], [20, 30 :: int]]
     = Inl CheckFailed"
  by (simp add: RangePartitionSchemeHeader_ctor_def PartitionSchemeHeader_ctor_def Let_def
      checkPartitionRangeBoundaries_def)

text \<open>
  Claim C8. With \<open>QUICKSTEP_DEBUG\<close> defined, the constructor of the range strategy runs
  \<open>checkPartitionRangeBoundaries\<close>, whose \<open>CHECK\<close>s are fatal: a descriptor that the
  constructor returns has boundary tuples that are all as long as the attribute list and
  that ascend under \<open>lessThan\<close>, each below the next; with \<open>DCHECK\<close> compiled in there
  are \<open>P - 1\<close> of them. The witness builds the descriptor with boundaries \<open>[10, 20]\<close>, and
  shows the constructor failing on descending boundaries and on a boundary of the wrong
  length.
\<close>

theorem RangePartitionSchemeHeader_ctor_debug_invariant:
  assumes dbg: "quickstep_debug cfg"
    and ctor: "RangePartitionSchemeHeader_ctor cfg make_less make_equal n attributes
                 partition_attribute_types partition_ranges = Inr h"
  shows "num_partitions h = n \<and> partition_attribute_ids h = attributes
       \<and> partition_range_boundaries h = partition_ranges
       \<and> (\<forall>b \<in> set (partition_range_boundaries h). length b = length (partition_attribute_ids h))
       \<and> ascending_boundaries cfg h
       \<and> (dcheck_is_on cfg \<longrightarrow> length (partition_range_boundaries h) = unat (n - 1))"
proof -
  define h0 :: "('a, 'b) RangePartitionSchemeHeader" where
    "h0 = \<lparr>partition_type = kRange, num_partitions = n, partition_attribute_ids = attributes,
           partition_attr_types = partition_attribute_types,
           partition_range_boundaries = partition_ranges,
           less_unchecked_comparators = map make_less partition_attribute_types,
           equal_unchecked_comparators = map make_equal partition_attribute_types\<rparr>"
  have d: "dcheck_is_on cfg \<longrightarrow> unat (n - 1) = length partition_ranges"
    using ctor
    by (auto simp add: RangePartitionSchemeHeader_ctor_def PartitionSchemeHeader_ctor_def Let_def
        split: if_splits)
  have "checkPartitionRangeBoundaries cfg h0 = Inr () \<and> h = h0"
    using ctor dbg
    by (auto simp add: RangePartitionSchemeHeader_ctor_def PartitionSchemeHeader_ctor_def Let_def
        h0_def split: if_splits sum.splits)
  then have chk: "checkPartitionRangeBoundaries cfg h = Inr ()" and h: "h = h0"
    by simp_all
  have fields: "num_partitions h = n" "partition_attribute_ids h = attributes"
      "partition_range_boundaries h = partition_ranges"
    by (simp_all add: h h0_def)
  show ?thesis
    using chk d fields by (simp add: checkPartitionRangeBoundaries_Inr)
qed

theorem RangePartitionSchemeHeader_ctor_debug_invariant_witness:
  "\<forall>dcheck.
     RangePartitionSchemeHeader_ctor \<lparr>dcheck_is_on = dcheck, quickstep_debug = True\<rparr>
         (\<lambda>t. (<)) (\<lambda>t. (=)) 3 [0] [()] [[10], [20]] = Inr example_range
     \<and> list_all (\<lambda>b. length b = length (partition_attribute_ids example_range))
           (partition_range_boundaries example_range)
     \<and> ascending_boundaries \<lparr>dcheck_is_on = dcheck, quickstep_debug = True\<rparr> example_range
     \<and> RangePartitionSchemeHeader_ctor \<lparr>dcheck_is_on = dcheck, quickstep_debug = True\<rparr>
         (\<lambda>t. (<)) (\<lambda>t. (=)) 3 [0] [()] [[20], [10 :: int]] = Inl CheckFailed
     \<and> RangePartitionSchemeHeader_ctor \<lparr>dcheck_is_on = dcheck, quickstep_debug = True\<rparr>
         (\<lambda>t. (<)) (\<lambda>t. (=)) 3 [0] [()] [[10], [20, 30 :: int]] = Inl CheckFailed"
proof
  fix dcheck
  let ?cfg = "\<lparr>dcheck_is_on = dcheck, quickstep_debug = True\<rparr>"
  have dbg: "quickstep_debug ?cfg" by simp
  have c: "RangePartitionSchemeHeader_ctor ?cfg (\<lambda>t. (<)) (\<lambda>t. (=)) 3 [0] [()] [[10], [20]]
      = Inr example_range"
    by (rule example_range_constructed)
  show "RangePartitionSchemeHeader_ctor ?cfg (\<lambda>t. (<)) (\<lambda>t. (=)) 3 [0] [()] [[10], [20]]
         = Inr example_range
     \<and> list_all (\<lambda>b. length b = length (partition_attribute_ids example_range))
           (partition_range_boundaries example_range)
     \<and> ascending_boundaries ?cfg example_range
     \<and> RangePartitionSchemeHeader_ctor ?cfg (\<lambda>t. (<)) (\<lambda>t. (=)) 3 [0] [()] [[20], [10 :: int]]
         = Inl CheckFailed
     \<and> RangePartitionSchemeHeader_ctor ?cfg (\<lambda>t. (<)) (\<lambda>t. (=)) 3 [0] [()] [[10], [20, 30 :: int]]
         = Inl CheckFailed"
    using RangePartitionSchemeHeader_ctor_debug_invariant [OF dbg c] c
      descending_boundaries_rejected [OF dbg] short_boundary_rejected [OF dbg]
    by (simp add: list_all_iff)
qed

section \<open>Round trip through the serialized form\<close>

text \<open>
  The constructor accepts the fields of a valid range descriptor and rebuilds it.
\<close>

lemma RangePartitionSchemeHeader_ctor_valid:
  assumes v: "valid_descriptor cfg make_less make_equal (RangeScheme h)"
  shows "RangePartitionSchemeHeader_ctor cfg make_less make_equal (num_partitions h)
           (partition_attribute_ids h) (partition_attr_types h) (partition_range_boundaries h)
         = Inr h"
proof -
  from v have t: "partition_type h = kRange" and ok: "range_header_ok h"
    and ty: "length (partition_attr_types h) = length (partition_attribute_ids h)"
    and lc: "less_unchecked_comparators h = map make_less (partition_attr_types h)"
    and ec: "equal_unchecked_comparators h = map make_equal (partition_attr_types h)"
    and asc: "ascending_boundaries cfg h"
    by (simp_all add: valid_descriptor_def)
  have n: "length (partition_range_boundaries h) + 1 = unat (num_partitions h)"
    using ok by (simp add: range_header_ok_def)
  then have "num_partitions h \<noteq> 0"
    by (metis Suc_eq_plus1 nat.simps(3) unat_0)
  then have "unat (num_partitions h - 1) = unat (num_partitions h) - 1"
    by (rule unat_minus_one)
  with n have cnt: "unat (num_partitions h - 1) = length (partition_range_boundaries h)"
    by simp
  have same: "\<lparr>partition_type = kRange, num_partitions = num_partitions h,
        partition_attribute_ids = partition_attribute_ids h,
        partition_attr_types = partition_attr_types h,
        partition_range_boundaries = partition_range_boundaries h,
        less_unchecked_comparators = map make_less (partition_attr_types h),
        equal_unchecked_comparators = map make_equal (partition_attr_types h)\<rparr> = h"
    using t lc ec by (cases h) simp
  have chk: "checkPartitionRangeBoundaries cfg h = Inr ()"
    using ok asc by (simp add: checkPartitionRangeBoundaries_Inr range_header_ok_def)
  show ?thesis
    using ty cnt chk
    by (simp add: RangePartitionSchemeHeader_ctor_def PartitionSchemeHeader_ctor_def Let_def same)
qed

lemma ProtoIsValid_getProto:
  assumes "valid_descriptor cfg make_less make_equal d"
  shows "ProtoIsValid (getProto d)"
proof (cases d)
  case (HashScheme h)
  with assms show ?thesis
    by (simp add: valid_descriptor_def ProtoIsValid_def getProto_def)
next
  case (RangeScheme h)
  with assms have ok: "range_header_ok h"
    and ty: "length (partition_attr_types h) = length (partition_attribute_ids h)"
    by (simp_all add: valid_descriptor_def)
  have n: "length (partition_range_boundaries h) + 1 = unat (num_partitions h)"
    using ok by (simp add: range_header_ok_def)
  then have "1 \<le> unat (num_partitions h)" by simp
  then have "1 \<le> num_partitions h"
    by (simp add: word_le_nat_alt)
  moreover have "length (partition_range_boundaries h) = unat (num_partitions h) - 1"
    using n by simp
  ultimately show ?thesis
    using ok ty RangeScheme
    by (simp add: ProtoIsValid_def getProto_def range_header_ok_def list_all_iff)
qed

lemma example_range_valid:
  "valid_descriptor cfg (\<lambda>t. (<)) (\<lambda>t. (=)) (RangeScheme example_range)"
  using example_range_ok example_range_ascending [of cfg]
  by (simp add: valid_descriptor_def) (simp add: example_range_def)

lemma example_hash_valid:
  "valid_descriptor cfg make_less make_equal (HashScheme example_hash)"
  by (simp add: valid_descriptor_def example_hash_def HashPartitionSchemeHeader_ctor_def
      PartitionSchemeHeader_ctor_def)

text \<open>
  Claim C9. For a valid descriptor \<open>d\<close>, hash or range, reconstructing the serialization
  of \<open>d\<close> gives \<open>d\<close> back: a descriptor with the same \<open>getPartitionId\<close> on every
  values tuple and every composite hash, and the same strategy tag, partition count and
  attribute ids. Serialization, validity check and reconstruction are the ones of the
  section on serialization, written from the spec.
\<close>

theorem ReconstructFromProto_getProto:
  assumes v: "valid_descriptor cfg make_less make_equal d"
  shows "ReconstructFromProto cfg make_less make_equal (getProto d) = Inr d
       \<and> (\<exists>d'. ReconstructFromProto cfg make_less make_equal (getProto d) = Inr d'
            \<and> (\<forall>HashCompositeKey value_of_attributes.
                  getPartitionId cfg HashCompositeKey d' value_of_attributes
                    = getPartitionId cfg HashCompositeKey d value_of_attributes)
            \<and> getPartitionType d' = getPartitionType d
            \<and> getNumPartitions d' = getNumPartitions d
            \<and> getPartitionAttributeIds d' = getPartitionAttributeIds d)"
proof -
  have valid: "ProtoIsValid (getProto d)"
    using v by (rule ProtoIsValid_getProto)
  have "ReconstructFromProto cfg make_less make_equal (getProto d) = Inr d"
  proof (cases d)
    case (HashScheme h)
    with v have "partition_type h = kHash"
      by (simp add: valid_descriptor_def)
    then have "\<lparr>partition_type = kHash, num_partitions = num_partitions h,
        partition_attribute_ids = partition_attribute_ids h\<rparr> = h"
      by (cases h) simp
    then show ?thesis
      using valid HashScheme
      by (simp add: ReconstructFromProto_def getProto_def HashPartitionSchemeHeader_ctor_def
          PartitionSchemeHeader_ctor_def)
  next
    case (RangeScheme h)
    with v have "RangePartitionSchemeHeader_ctor cfg make_less make_equal (num_partitions h)
           (partition_attribute_ids h) (partition_attr_types h) (partition_range_boundaries h)
         = Inr h"
      by (intro RangePartitionSchemeHeader_ctor_valid) simp
    then show ?thesis
      using valid RangeScheme
      by (simp add: ReconstructFromProto_def getProto_def)
  qed
  then show ?thesis by simp
qed

theorem ReconstructFromProto_getProto_witness:
  "\<forall>cfg. valid_descriptor cfg (\<lambda>t. (<)) (\<lambda>t. (=)) (RangeScheme example_range)
      \<and> ReconstructFromProto cfg (\<lambda>t. (<)) (\<lambda>t. (=)) (getProto (RangeScheme example_range))
          = Inr (RangeScheme example_range)
      \<and> valid_descriptor cfg (\<lambda>t. (<)) (\<lambda>t. (=))
          (HashScheme example_hash :: (unit, int) descriptor)
      \<and> ReconstructFromProto cfg (\<lambda>t. (<)) (\<lambda>t. (=))
          (getProto (HashScheme example_hash :: (unit, int) descriptor))
          = Inr (HashScheme example_hash)"
proof
  fix cfg
  show "valid_descriptor cfg (\<lambda>t. (<)) (\<lambda>t. (=)) (RangeScheme example_range)
      \<and> ReconstructFromProto cfg (\<lambda>t. (<)) (\<lambda>t. (=)) (getProto (RangeScheme example_range))
          = Inr (RangeScheme example_range)
      \<and> valid_descriptor cfg (\<lambda>t. (<)) (\<lambda>t. (=))
          (HashScheme example_hash :: (unit, int) descriptor)
      \<and> ReconstructFromProto cfg (\<lambda>t. (<)) (\<lambda>t. (=))
          (getProto (HashScheme example_hash :: (unit, int) descriptor))
          = Inr (HashScheme example_hash)"
    using ReconstructFromProto_getProto [OF example_range_valid, of cfg]
      ReconstructFromProto_getProto [OF example_hash_valid, of cfg "\<lambda>t. (<)" "\<lambda>t. (=)"]
      example_range_valid [of cfg] example_hash_valid [of cfg "\<lambda>t. (<)" "\<lambda>t. (=)"]
    by blast
qed

section \<open>A single partition\<close>

text \<open>
  The constructor accepts one partition and no boundary, in every build configuration:
  \<open>num_partitions - 1 = 0\<close> boundaries is what its \<open>DCHECK_EQ\<close> asks for, and both loops
  of \<open>checkPartitionRangeBoundaries\<close> are empty. The serialized form of this descriptor
  is valid.
\<close>

lemma example_single_constructed:
  "RangePartitionSchemeHeader_ctor cfg (\<lambda>t. (<)) (\<lambda>t. (=)) 1 [0] [()] [] = Inr example_single"
  by (simp add: RangePartitionSchemeHeader_ctor_def PartitionSchemeHeader_ctor_def Let_def
      checkPartitionRangeBoundaries_def checkPartitionRangeBoundaries_loop.simps
      example_single_def)

lemma example_single_proto_valid: "ProtoIsValid (getProto (RangeScheme example_single))"
  by (simp add: ProtoIsValid_def getProto_def example_single_def)

text \<open>
  Claim C6 says that \<open>getPartitionId\<close> of any descriptor with at least one partition
  returns an id in \<open>[0, P)\<close> for values of the right length. It does for the hash strategy
  (\<open>Hash_getPartitionId_in_range\<close>) and for the range strategy with at least two partitions
  (\<open>Range_getPartitionId_returns\<close>). For the range descriptor with one partition that the
  constructor builds from no boundary, the call on \<open>[5]\<close> returns no id: \<open>end\<close> is
  \<open>0 - 1 = 2^64 - 1\<close> and \<open>partition_range_boundaries_[end]\<close> is read out of range.
\<close>

theorem getPartitionId_example_single:
  "RangePartitionSchemeHeader_ctor cfg (\<lambda>t. (<)) (\<lambda>t. (=)) 1 [0] [()] [] = Inr example_single
   \<and> getNumPartitions (RangeScheme example_single) = 1
   \<and> getPartitionId cfg HashCompositeKey (RangeScheme example_single) [5] = Inl OutOfRange"
proof -
  have "partition_range_boundaries example_single = []"
    and "length [5 :: int] = length (partition_attribute_ids example_single)"
    by (simp_all add: example_single_def)
  then have "Range_getPartitionId cfg example_single [5] = Inl OutOfRange"
    by (rule Range_getPartitionId_no_boundaries)
  then show ?thesis
    using example_single_constructed [of cfg]
    by (simp add: getPartitionId_def getNumPartitions_def) (simp add: example_single_def)
qed

text \<open>
  Claim C7 says that one partition is a normal case for both strategies. With one
  partition and values of the right length the hash strategy returns partition 0. The
  range strategy, which then has no boundary, does not return 0: its first statement after
  the length check computes \<open>end = partition_range_boundaries_.size() - 1\<close>, which wraps,
  and the comparison with \<open>partition_range_boundaries_[end]\<close> reads the empty vector out
  of range.
\<close>

theorem single_partition:
  assumes "num_partitions hash_header = 1"
    and "length v = length (partition_attribute_ids hash_header)"
    and "num_partitions range_header = 1"
    and "partition_range_boundaries range_header = []"
    and "length w = length (partition_attribute_ids range_header)"
  shows "Hash_getPartitionId cfg HashCompositeKey hash_header v = Inr 0
       \<and> Range_getPartitionId cfg range_header w = Inl OutOfRange"
proof -
  have "Hash_getPartitionId cfg HashCompositeKey hash_header v = Inr 0"
    using assms(1,2) by (simp add: Hash_getPartitionId_def)
  moreover have "Range_getPartitionId cfg range_header w = Inl OutOfRange"
    using assms(4,5) by (rule Range_getPartitionId_no_boundaries)
  ultimately show ?thesis by simp
qed

theorem single_partition_witness:
  "\<forall>cfg. num_partitions (HashPartitionSchemeHeader_ctor 1 [0]) = 1
      \<and> num_partitions example_single = 1
      \<and> partition_range_boundaries example_single = []
      \<and> Hash_getPartitionId cfg example_HashCompositeKey (HashPartitionSchemeHeader_ctor 1 [0]) [7]
          = Inr 0
      \<and> Range_getPartitionId cfg example_single [7] = Inl OutOfRange"
proof
  fix cfg
  have a: "num_partitions (HashPartitionSchemeHeader_ctor 1 [0]) = 1"
    and b: "length [7 :: int] = length (partition_attribute_ids (HashPartitionSchemeHeader_ctor 1 [0]))"
    by (simp_all add: HashPartitionSchemeHeader_ctor_def PartitionSchemeHeader_ctor_def)
  have c: "num_partitions example_single = 1"
    and d: "partition_range_boundaries example_single = []"
    and e: "length [7 :: int] = length (partition_attribute_ids example_single)"
    by (simp_all add: example_single_def)
  show "num_partitions (HashPartitionSchemeHeader_ctor 1 [0]) = 1
      \<and> num_partitions example_single = 1
      \<and> partition_range_boundaries example_single = []
      \<and> Hash_getPartitionId cfg example_HashCompositeKey (HashPartitionSchemeHeader_ctor 1 [0]) [7]
          = Inr 0
      \<and> Range_getPartitionId cfg example_single [7] = Inl OutOfRange"
    using single_partition [OF a b c d e, of cfg example_HashCompositeKey] a c d by blast
qed

end
